theory Spec2Isabelle
  imports Main "HOL-Library.Sublist"
begin

section \<open>Characters and strings of the receipt text\<close>

text \<open>
  The receipt text is a Python \<open>str\<close>. It is modelled as a \<open>string\<close> in which one
  \<open>char\<close> stands for one code point, so the model covers the texts whose code points
  are below 256. On that range the character classes of Python's \<open>re\<close> (for \<open>str\<close>
  patterns) and of \<open>str.strip\<close> are the ones below.
\<close>

definition LF :: char where
  \<comment> \<open>the line feed\<close>
  "LF = CHR 0x0A"

definition code :: "char \<Rightarrow> int" where
  "code ch = of_char ch"

definition is_digit :: "char \<Rightarrow> bool" where
  \<comment> \<open>\<open>\d\<close>: the decimal digits\<close>
  "is_digit ch = (48 \<le> code ch \<and> code ch \<le> 57)"

definition is_space :: "char \<Rightarrow> bool" where
  \<comment> \<open>\<open>\s\<close> and \<open>str.isspace\<close>: tab, LF, VT, FF, CR, FS, GS, RS, US, space, NEL, NBSP\<close>
  "is_space ch = ((9 \<le> code ch \<and> code ch \<le> 13) \<or> (28 \<le> code ch \<and> code ch \<le> 32)
     \<or> code ch = 133 \<or> code ch = 160)"

definition is_word :: "char \<Rightarrow> bool" where
  \<comment> \<open>\<open>\w\<close>: alphanumeric code points and the underscore\<close>
  "is_word ch = (is_digit ch \<or> (65 \<le> code ch \<and> code ch \<le> 90) \<or> code ch = 95
     \<or> (97 \<le> code ch \<and> code ch \<le> 122)
     \<or> code ch = 170 \<or> code ch = 178 \<or> code ch = 179 \<or> code ch = 181
     \<or> code ch = 185 \<or> code ch = 186 \<or> code ch = 188 \<or> code ch = 189 \<or> code ch = 190
     \<or> (192 \<le> code ch \<and> code ch \<le> 214) \<or> (216 \<le> code ch \<and> code ch \<le> 246)
     \<or> 248 \<le> code ch)"

definition is_dot :: "char \<Rightarrow> bool" where
  \<comment> \<open>\<open>.\<close> without DOTALL: anything but the line feed\<close>
  "is_dot ch = (ch \<noteq> LF)"

definition in_range :: "char \<Rightarrow> char \<Rightarrow> char \<Rightarrow> bool" where
  \<comment> \<open>the set \<open>[lo-hi]\<close>\<close>
  "in_range lo hi ch = (code lo \<le> code ch \<and> code ch \<le> code hi)"

section \<open>The regular expressions of \<open>re\<close> used by the receipt\<close>

text \<open>
  \<open>re.search\<close> and \<open>re.findall\<close> are a backtracking matcher. A pattern is a value of
  \<open>regex\<close>; the matcher \<open>m\<close> returns every way the pattern can match at a position, in
  the order in which backtracking tries them, so the head of the list is the match Python
  takes. A position is the text before it (reversed) and the text after it; the third
  component holds the groups captured so far, the latest first.
\<close>

datatype regex =
    Chr char
  | Dot
  | Digit
  | Wordc
  | Space
  | Rng char char
  | Bol
  | Eol
  | Wordb
  | Seq regex regex
  | Alt regex regex
  | Star regex
  | Opt regex
  | Times nat regex
  | Grp nat regex
  | Ahead regex
  | Behind nat regex

type_synonym mstate = "string \<times> string \<times> (nat \<times> string) list"

definition one :: "(char \<Rightarrow> bool) \<Rightarrow> mstate \<Rightarrow> mstate list" where
  "one P = (\<lambda>(b, a, c). case a of [] \<Rightarrow> [] | x # a' \<Rightarrow> if P x then [(x # b, a', c)] else [])"

definition at_bol :: "string \<Rightarrow> bool" where
  \<comment> \<open>\<open>^\<close> with re.M: at the start of the text or just after a line feed\<close>
  "at_bol b = (case b of [] \<Rightarrow> True | x # _ \<Rightarrow> x = LF)"

definition at_eol :: "string \<Rightarrow> bool" where
  \<comment> \<open>\<open>$\<close> with re.M: at the end of the text or just before a line feed\<close>
  "at_eol a = (case a of [] \<Rightarrow> True | x # _ \<Rightarrow> x = LF)"

definition word_next :: "string \<Rightarrow> bool" where
  "word_next a = (case a of [] \<Rightarrow> False | x # _ \<Rightarrow> is_word x)"

definition at_wordb :: "string \<Rightarrow> string \<Rightarrow> bool" where
  \<comment> \<open>\<open>\b\<close>: exactly one of the two neighbours is a word character\<close>
  "at_wordb b a = (word_next b \<noteq> word_next a)"

definition pos :: "mstate \<Rightarrow> nat" where
  \<comment> \<open>what is left of the text after the position\<close>
  "pos q = length (fst (snd q))"

text \<open>
  A starred expression is greedy: \<open>iter n f p\<close> tries one more round of \<open>f\<close> before it
  stops at \<open>p\<close>. A round that consumes nothing is not repeated (in the receipt's patterns
  no starred expression matches the empty string), so every round moves on by a character
  at least and the bound \<open>n\<close>, the number of characters left, never cuts a match short
  (lemma \<open>iter_bound\<close>).
\<close>

fun iter :: "nat \<Rightarrow> (mstate \<Rightarrow> mstate list) \<Rightarrow> mstate \<Rightarrow> mstate list" where
  "iter 0 f p = [p]"
| "iter (Suc n) f p = concat (map (\<lambda>q. if pos q < pos p then iter n f q else []) (f p)) @ [p]"

fun m :: "regex \<Rightarrow> mstate \<Rightarrow> mstate list" where
  "m (Chr x) p = one (\<lambda>y. y = x) p"
| "m Dot p = one is_dot p"
| "m Digit p = one is_digit p"
| "m Wordc p = one is_word p"
| "m Space p = one is_space p"
| "m (Rng lo hi) p = one (in_range lo hi) p"
| "m Bol p = (if at_bol (fst p) then [p] else [])"
| "m Eol p = (if at_eol (fst (snd p)) then [p] else [])"
| "m Wordb p = (if at_wordb (fst p) (fst (snd p)) then [p] else [])"
| "m (Seq r1 r2) p = concat (map (\<lambda>q. m r2 q) (m r1 p))"
| "m (Alt r1 r2) p = m r1 p @ m r2 p"
| "m (Star r) p = iter (pos p) (\<lambda>q. m r q) p"
| "m (Opt r) p = m r p @ [p]"
| "m (Times n r) p = ((\<lambda>ps. concat (map (\<lambda>q. m r q) ps)) ^^ n) [p]"
| "m (Grp g r) p =
     map (\<lambda>q. (fst q, fst (snd q), (g, take (pos p - pos q) (fst (snd p))) # snd (snd q))) (m r p)"
| "m (Ahead r) p = (case m r p of [] \<Rightarrow> [] | q # _ \<Rightarrow> [(fst p, fst (snd p), snd (snd q))])"
| "m (Behind w r) p =
     (if w \<le> length (fst p)
      then (case m r (drop w (fst p), rev (take w (fst p)) @ fst (snd p), snd (snd p)) of
              [] \<Rightarrow> [] | q # _ \<Rightarrow> [(fst p, fst (snd p), snd (snd q))])
      else [])"

definition Plus :: "regex \<Rightarrow> regex" where
  \<comment> \<open>\<open>r+\<close>\<close>
  "Plus r = Seq r (Star r)"

fun lits :: "string \<Rightarrow> regex" where
  \<comment> \<open>a literal string of two characters or more\<close>
  "lits [] = Times 0 Dot"
| "lits [x] = Chr x"
| "lits (x # xs) = Seq (Chr x) (lits xs)"

section \<open>Searching and scanning\<close>

text \<open>
  \<open>re.search\<close> tries the start positions from left to right and takes the first match
  of the first position that has one. \<open>re.findall\<close> repeats the search from the end of
  the previous match; after an empty match the next search may not return an empty match
  at the same position (the flag \<open>must\<close>). Every search starts with no group captured.
\<close>

definition accept :: "bool \<Rightarrow> string \<Rightarrow> mstate list \<Rightarrow> mstate option" where
  "accept must a qs = find (\<lambda>q. \<not> (must \<and> pos q = length a)) qs"

definition matched :: "string \<Rightarrow> mstate \<Rightarrow> string" where
  \<comment> \<open>the text between the start \<open>a\<close> of a match and its end \<open>q\<close>\<close>
  "matched a q = take (length a - pos q) a"

fun search_from :: "regex \<Rightarrow> string \<Rightarrow> string \<Rightarrow> (string \<times> mstate) option" where
  "search_from r b [] =
     (case accept False [] (m r (b, [], [])) of None \<Rightarrow> None | Some q \<Rightarrow> Some ([], q))"
| "search_from r b (x # a) =
     (case accept False (x # a) (m r (b, x # a, [])) of
        None \<Rightarrow> search_from r (x # b) a
      | Some q \<Rightarrow> Some (x # a, q))"

definition re_search :: "regex \<Rightarrow> string \<Rightarrow> string option" where
  \<comment> \<open>\<open>re.search(pattern, text, flags=re.M)\<close>, and \<open>.group()\<close> of the match\<close>
  "re_search r s = map_option (\<lambda>(a, q). matched a q) (search_from r [] s)"

function findall_from :: "regex \<Rightarrow> bool \<Rightarrow> string \<Rightarrow> string \<Rightarrow> (string \<times> (nat \<times> string) list) list" where
  "findall_from r must b a =
     (case accept must a (m r (b, a, [])) of
        Some q \<Rightarrow>
          (matched a q, snd (snd q)) #
          (if pos q \<le> length a
           then findall_from r (pos q = length a) (fst q) (fst (snd q))
           else [])
      | None \<Rightarrow>
          (case a of [] \<Rightarrow> [] | x # a' \<Rightarrow> findall_from r False (x # b) a'))"
  by pat_completeness auto
termination
proof (relation "measure (\<lambda>(r, must, b, a). 2 * length a + (if must then 0 else 1))")
  show "wf (measure (\<lambda>(r, must, b, a). 2 * length a + (if must then 0 else 1)))"
    by simp
next
  fix r :: regex and must :: bool and b a :: string and q :: mstate
  assume acc: "accept must a (m r (b, a, [])) = Some q" and le: "pos q \<le> length a"
  from acc have "\<not> (must \<and> pos q = length a)"
    by (auto simp: accept_def find_Some_iff)
  with le show "((r, pos q = length a, fst q, fst (snd q)), (r, must, b, a))
      \<in> measure (\<lambda>(r, must, b, a). 2 * length a + (if must then 0 else 1))"
    by (auto simp: pos_def)
next
  fix r :: regex and must :: bool and b a :: string and x :: char and a' :: string
  assume "a = x # a'"
  then show "((r, False, x # b, a'), (r, must, b, a))
      \<in> measure (\<lambda>(r, must, b, a). 2 * length a + (if must then 0 else 1))"
    by simp
qed

definition group :: "(nat \<times> string) list \<Rightarrow> nat \<Rightarrow> string" where
  \<comment> \<open>the text of a group, the empty string when the group did not take part\<close>
  "group c g = (case map_of c g of None \<Rightarrow> [] | Some t \<Rightarrow> t)"

definition re_findall :: "regex \<Rightarrow> string \<Rightarrow> string list" where
  \<comment> \<open>\<open>re.findall\<close> for a pattern without groups: the matched texts\<close>
  "re_findall r s = map fst (findall_from r False [] s)"

definition re_findall3 :: "regex \<Rightarrow> string \<Rightarrow> (string \<times> string \<times> string) list" where
  \<comment> \<open>\<open>re.findall\<close> for a pattern with the groups 1, 2, 3: the tuples of their texts\<close>
  "re_findall3 r s = map (\<lambda>(t, c). (group c 1, group c 2, group c 3)) (findall_from r False [] s)"

section \<open>String and integer operations of Python\<close>

fun py_split :: "string \<Rightarrow> string \<Rightarrow> string list" where
  \<comment> \<open>\<open>s.split(sep)\<close> for a separator that is not empty\<close>
  "py_split sep [] = [[]]"
| "py_split sep (x # xs) =
     (if sep \<noteq> [] \<and> prefix sep (x # xs)
      then [] # py_split sep (drop (length sep) (x # xs))
      else (case py_split sep xs of [] \<Rightarrow> [[x]] | p # ps \<Rightarrow> (x # p) # ps))"

fun py_replace :: "string \<Rightarrow> string \<Rightarrow> string \<Rightarrow> string" where
  \<comment> \<open>\<open>s.replace(old, new)\<close> for an \<open>old\<close> that is not empty\<close>
  "py_replace old new [] = []"
| "py_replace old new (x # xs) =
     (if old \<noteq> [] \<and> prefix old (x # xs)
      then new @ py_replace old new (drop (length old) (x # xs))
      else x # py_replace old new xs)"

definition py_strip :: "string \<Rightarrow> string" where
  "py_strip s = rev (dropWhile is_space (rev (dropWhile is_space s)))"

definition is_int_space :: "char \<Rightarrow> bool" where
  \<comment> \<open>the white space that \<open>int\<close> skips around a number\<close>
  "is_int_space ch = ((9 \<le> code ch \<and> code ch \<le> 13) \<or> code ch = 32
     \<or> code ch = 133 \<or> code ch = 160)"

definition dec :: "string \<Rightarrow> int" where
  "dec ds = foldl (\<lambda>n ch. 10 * n + (code ch - 48)) 0 ds"

fun int_body :: "string \<Rightarrow> bool" where
  \<comment> \<open>digits, with single underscores allowed between two digits\<close>
  "int_body [] = False"
| "int_body [x] = is_digit x"
| "int_body (x # y # r) =
     (is_digit x \<and> (if y = CHR ''_'' then int_body r else int_body (y # r)))"

definition py_int :: "string \<Rightarrow> int option" where
  \<comment> \<open>\<open>int(s)\<close>; None stands for ValueError. The interpreter's limit on the number of
      digits of a converted string is taken as switched off.\<close>
  "py_int s =
     (let t = rev (dropWhile is_int_space (rev (dropWhile is_int_space s)));
          body = (case t of [] \<Rightarrow> [] | x # r \<Rightarrow> if x = CHR ''-'' \<or> x = CHR ''+'' then r else t);
          v = dec (filter (\<lambda>ch. ch \<noteq> CHR ''_'') body)
      in if int_body body then Some (case t of [] \<Rightarrow> v | x # r \<Rightarrow> if x = CHR ''-'' then - v else v)
         else None)"

section \<open>The class \<open>Receipt\<close>\<close>

text \<open>
  An instance has the attribute \<open>file\<close>, set by the constructor, and the attribute
  \<open>numbers\<close>, which does not exist until \<open>get_subtotal\<close> assigns it. A call of a
  method (the type \<open>'a call\<close>) takes the instance and returns the result, or the
  exception raised, together with the instance as the call leaves it.
\<close>

datatype error = AttributeError | ValueError | IndexError

record receipt =
  "file" :: string
  numbers :: "int list option"

record line_item =
  sku :: int
  description :: string
  total :: int
  taxCode :: string

record receipt_dictionary =
  date :: string
  storeAddress :: string
  invoiceNumber :: string
  subtotal :: int
  total_due :: int
  lineItems :: "line_item list"

type_synonym 'a call = "receipt \<Rightarrow> (error + 'a) \<times> receipt"

definition init :: "string \<Rightarrow> receipt" where
  \<comment> \<open>the constructor, given the text found in the JSON file\<close>
  "init text = \<lparr>file = text, numbers = None\<rparr>"

definition ret :: "'a \<Rightarrow> 'a call" where
  "ret x s = (Inr x, s)"

definition lift :: "error + 'a \<Rightarrow> 'a call" where
  "lift x s = (x, s)"

definition and_then :: "'a call \<Rightarrow> ('a \<Rightarrow> 'b call) \<Rightarrow> 'b call" where
  \<comment> \<open>run \<open>f\<close>, and \<open>g\<close> on its result unless \<open>f\<close> raised\<close>
  "and_then f g s = (case f s of (Inl e, s') \<Rightarrow> (Inl e, s') | (Inr x, s') \<Rightarrow> g x s')"

definition index :: "'a list \<Rightarrow> nat \<Rightarrow> error + 'a" where
  \<comment> \<open>\<open>xs[i]\<close> for an index that is not negative\<close>
  "index xs i = (if i < length xs then Inr (xs ! i) else Inl IndexError)"

definition to_int :: "string \<Rightarrow> error + int" where
  "to_int x = (case py_int x of None \<Rightarrow> Inl ValueError | Some v \<Rightarrow> Inr v)"

fun for_each :: "('a \<Rightarrow> error + 'b) \<Rightarrow> 'a list \<Rightarrow> error + 'b list" where
  \<comment> \<open>the list comprehension \<open>[f(x) for x in xs]\<close>, stopped by the first exception\<close>
  "for_each f [] = Inr []"
| "for_each f (x # xs) =
     (case f x of Inl e \<Rightarrow> Inl e
      | Inr y \<Rightarrow> (case for_each f xs of Inl e \<Rightarrow> Inl e | Inr ys \<Rightarrow> Inr (y # ys)))"

definition py_max :: "int list \<Rightarrow> error + int" where
  \<comment> \<open>\<open>max(xs)\<close>, which raises ValueError on the empty list\<close>
  "py_max xs = (case xs of [] \<Rightarrow> Inl ValueError | x # r \<Rightarrow> Inr (foldl max x r))"

subsection \<open>The patterns\<close>

definition date_pattern :: regex where
  \<comment> \<open>\<^verbatim>\<open>^(\d{2}\/){2}(\d{4})$\<close>\<close>
  "date_pattern =
     Seq Bol (Seq (Times 2 (Grp 1 (Seq (Times 2 Digit) (Chr (CHR ''/'')))))
       (Seq (Grp 2 (Times 4 Digit)) Eol))"

definition address_pattern :: regex where
  \<comment> \<open>\<^verbatim>\<open>.*(?=\nVENDEDOR)\<close>\<close>
  "address_pattern = Seq (Star Dot) (Ahead (lits (LF # ''VENDEDOR'')))"

definition invoice_pattern :: regex where
  \<comment> \<open>\<^verbatim>\<open>(?<=TIQUETE\s).*\<close>\<close>
  "invoice_pattern = Seq (Behind 8 (Seq (lits ''TIQUETE'') Space)) (Star Dot)"

definition number_pattern :: regex where
  \<comment> \<open>\<^verbatim>\<open>^\d+$\<close>\<close>
  "number_pattern = Seq Bol (Seq (Plus Digit) Eol)"

definition negative_pattern :: regex where
  \<comment> \<open>\<^verbatim>\<open>^\d+-$\<close>\<close>
  "negative_pattern = Seq Bol (Seq (Plus Digit) (Seq (Chr (CHR ''-'')) Eol))"

definition sku_pattern :: regex where
  \<comment> \<open>\<^verbatim>\<open>(?:\b(\d{13})\s(.*)\b\n)|(?:\b(SUBTOTAL)\b\n)?\<close>\<close>
  "sku_pattern =
     Alt (Seq Wordb (Seq (Grp 1 (Times 13 Digit)) (Seq Space (Seq (Grp 2 (Star Dot))
            (Seq Wordb (Chr LF))))))
         (Opt (Seq Wordb (Seq (Grp 3 (lits ''SUBTOTAL'')) (Seq Wordb (Chr LF)))))"

definition amount_line :: regex where
  \<comment> \<open>\<^verbatim>\<open>(?:\b\d+\s?\w?\b\n)\<close>\<close>
  "amount_line =
     Seq Wordb (Seq (Plus Digit) (Seq (Opt Space) (Seq (Opt Wordc) (Seq Wordb (Chr LF)))))"

definition taxed_line :: regex where
  \<comment> \<open>\<^verbatim>\<open>(?:\b[0-9]{3,}\s\w\b\n)\<close>\<close>
  "taxed_line =
     Seq Wordb (Seq (Times 3 (Rng (CHR ''0'') (CHR ''9''))) (Seq (Star (Rng (CHR ''0'') (CHR ''9'')))
       (Seq Space (Seq Wordc (Seq Wordb (Chr LF))))))"

definition prices_pattern :: regex where
  \<comment> \<open>\<^verbatim>\<open>(?:\b\d+\s?\w?\b\n)+(?:\b[0-9]{3,}\s\w\b\n)+(?:\b\d+\s?\w?\b\n)+\<close>\<close>
  "prices_pattern = Seq (Plus amount_line) (Seq (Plus taxed_line) (Plus amount_line))"

subsection \<open>The methods\<close>

definition search_pattern :: "regex \<Rightarrow> string call" where
  \<comment> \<open>\<open>re.search\<close> returns None when nothing matches, and \<open>None.group()\<close> raises\<close>
  "search_pattern pattern s =
     (case re_search pattern (file s) of None \<Rightarrow> (Inl AttributeError, s) | Some t \<Rightarrow> (Inr t, s))"

definition get_date :: "string call" where
  "get_date = search_pattern date_pattern"

definition get_address :: "string call" where
  "get_address =
     and_then (search_pattern address_pattern) (\<lambda>t.
     and_then (lift (index (py_split ''TEL:'' t) 0)) (\<lambda>u.
     ret (py_strip u)))"

definition get_invoice_number :: "string call" where
  "get_invoice_number = search_pattern invoice_pattern"

definition get_all_matches :: "regex \<Rightarrow> string list call" where
  \<comment> \<open>for a pattern without groups\<close>
  "get_all_matches pattern s = (Inr (re_findall pattern (file s)), s)"

definition get_all_matches3 :: "regex \<Rightarrow> (string \<times> string \<times> string) list call" where
  \<comment> \<open>for a pattern with three groups\<close>
  "get_all_matches3 pattern s = (Inr (re_findall3 pattern (file s)), s)"

definition set_numbers :: "int list \<Rightarrow> unit call" where
  "set_numbers ns s = (Inr (), s\<lparr>numbers := Some ns\<rparr>)"

definition read_numbers :: "int list call" where
  "read_numbers s = (case numbers s of None \<Rightarrow> (Inl AttributeError, s) | Some ns \<Rightarrow> (Inr ns, s))"

definition get_subtotal :: "int call" where
  "get_subtotal =
     and_then (get_all_matches number_pattern) (\<lambda>ms.
     and_then (lift (for_each to_int ms)) (\<lambda>ns.
     and_then (set_numbers ns) (\<lambda>_.
     and_then read_numbers (\<lambda>xs.
     lift (py_max xs)))))"

definition get_total :: "int call" where
  "get_total =
     and_then (get_all_matches negative_pattern) (\<lambda>negative_numbers.
     and_then (lift (for_each (\<lambda>x. map_sum id (\<lambda>v. v * - 1) (to_int (py_replace ''-'' [] x)))
                 negative_numbers)) (\<lambda>negative_numbers.
     let discounts = sum_list negative_numbers in
     and_then get_subtotal (\<lambda>sub.
     and_then read_numbers (\<lambda>xs.
     if sub + discounts \<in> set xs
     then and_then get_subtotal (\<lambda>sub'. ret (sub' + discounts))
     else get_subtotal))))"

fun clean_items :: "(string \<times> string \<times> string) list \<Rightarrow> string list list" where
  "clean_items [] = []"
| "clean_items ((i0, i1, i2) # rest) =
     (if i0 \<noteq> [] \<and> i1 \<noteq> [] then [i0, i1] # clean_items rest
      else if i2 \<noteq> [] then [[], i2] # clean_items rest
      else clean_items rest)"

definition get_raw_sku_and_descriptions :: "string list list call" where
  "get_raw_sku_and_descriptions =
     and_then (get_all_matches3 sku_pattern) (\<lambda>dirty_items. ret (clean_items dirty_items))"

definition price_of :: "string \<Rightarrow> error + string list list" where
  \<comment> \<open>what one line \<open>elem2\<close> of a block adds to \<open>prices_list\<close>\<close>
  "price_of elem2 =
     (if elem2 \<noteq> [] \<and> elem2 \<noteq> '' ''
      then (if CHR '' '' \<in> set elem2
            then (case index (py_split '' '' elem2) 0 of Inl e \<Rightarrow> Inl e
                  | Inr p0 \<Rightarrow> (case index (py_split '' '' elem2) 1 of Inl e \<Rightarrow> Inl e
                  | Inr p1 \<Rightarrow> Inr [[p0, p1]]))
            else Inr [[elem2, []]])
      else Inr [])"

definition prices_of :: "string \<Rightarrow> error + string list list" where
  \<comment> \<open>the inner loop over the lines of one matched block\<close>
  "prices_of elem = map_sum id concat (for_each price_of (py_split [LF] elem))"

definition get_raw_prices :: "string list list call" where
  "get_raw_prices =
     and_then (get_all_matches prices_pattern) (\<lambda>raw_prices.
     lift (map_sum id concat (for_each prices_of raw_prices)))"

definition append_price :: "string list list \<Rightarrow> nat \<Rightarrow> string list list \<Rightarrow> error + string list list" where
  \<comment> \<open>the body of the loop over \<open>limit\<close>: two appends to the list \<open>sku_and_descriptions[i]\<close>\<close>
  "append_price prices i descs =
     (case index prices i of Inl e \<Rightarrow> Inl e | Inr p \<Rightarrow>
      (case index descs i of Inl e \<Rightarrow> Inl e | Inr d \<Rightarrow>
      (case index p 0 of Inl e \<Rightarrow> Inl e | Inr p0 \<Rightarrow>
      (case index p 1 of Inl e \<Rightarrow> Inl e | Inr p1 \<Rightarrow>
         Inr (descs[i := (d @ [p0]) @ [p1]])))))"

fun append_prices :: "nat list \<Rightarrow> string list list \<Rightarrow> string list list \<Rightarrow> error + string list list" where
  "append_prices [] prices descs = Inr descs"
| "append_prices (i # limit) prices descs =
     (case append_price prices i descs of Inl e \<Rightarrow> Inl e
      | Inr descs' \<Rightarrow> append_prices limit prices descs')"

definition make_item :: "string list \<Rightarrow> error + line_item" where
  "make_item x =
     (case to_int (x ! 0) of Inl e \<Rightarrow> Inl e | Inr s \<Rightarrow>
      (case to_int (x ! 2) of Inl e \<Rightarrow> Inl e | Inr t \<Rightarrow>
         Inr \<lparr>sku = s, description = x ! 1, total = t, taxCode = x ! 3\<rparr>))"

fun complete_items :: "string list list \<Rightarrow> error + line_item list" where
  "complete_items [] = Inr []"
| "complete_items (x # xs) =
     (if length x = 4 \<and> x ! 1 \<noteq> ''SUBTOTAL''
      then (case make_item x of Inl e \<Rightarrow> Inl e
            | Inr item \<Rightarrow> (case complete_items xs of Inl e \<Rightarrow> Inl e
            | Inr items \<Rightarrow> Inr (item # items)))
      else complete_items xs)"

definition items_group :: "string list list \<Rightarrow> string list list \<Rightarrow> error + line_item list" where
  \<comment> \<open>\<open>get_items_group\<close> from the two lists on\<close>
  "items_group sku_and_descriptions prices_and_tax_codes =
     (case append_prices [0 ..< min (length sku_and_descriptions) (length prices_and_tax_codes)]
             prices_and_tax_codes sku_and_descriptions of
        Inl e \<Rightarrow> Inl e
      | Inr merged \<Rightarrow> complete_items merged)"

definition get_items_group :: "line_item list call" where
  "get_items_group =
     and_then get_raw_sku_and_descriptions (\<lambda>sku_and_descriptions.
     and_then get_raw_prices (\<lambda>prices_and_tax_codes.
     lift (items_group sku_and_descriptions prices_and_tax_codes)))"

definition get_receipt_dictionary :: "receipt_dictionary call" where
  "get_receipt_dictionary =
     and_then get_date (\<lambda>d.
     and_then get_address (\<lambda>a.
     and_then get_invoice_number (\<lambda>n.
     and_then get_subtotal (\<lambda>sub.
     and_then get_total (\<lambda>tot.
     and_then get_items_group (\<lambda>items.
     ret \<lparr>date = d, storeAddress = a, invoiceNumber = n, subtotal = sub, total_due = tot,
          lineItems = items\<rparr>))))))"

section \<open>The specification's reading of the text\<close>

text \<open>
  The definitions below do not come from the source. They say in terms of the lines of the
  text what the specification says about the patterns, and the theorems compare them with
  the source's patterns run by the matcher.
\<close>

definition line :: "string \<Rightarrow> string" where
  \<comment> \<open>the text up to the next line feed\<close>
  "line a = takeWhile (\<lambda>x. x \<noteq> LF) a"

definition rest :: "string \<Rightarrow> string" where
  \<comment> \<open>the text from the next line feed on\<close>
  "rest a = dropWhile (\<lambda>x. x \<noteq> LF) a"

definition digits_line :: "string \<Rightarrow> bool" where
  \<comment> \<open>a line that consists solely of digits\<close>
  "digits_line l = (l \<noteq> [] \<and> list_all is_digit l)"

definition negative_line :: "string \<Rightarrow> bool" where
  \<comment> \<open>a line of digits followed by a final \<open>-\<close>\<close>
  "negative_line l = (l \<noteq> [] \<and> last l = CHR ''-'' \<and> digits_line (butlast l))"

definition minus_tail :: "string \<Rightarrow> bool" where
  \<comment> \<open>what may follow the first digit of a negative line\<close>
  "minus_tail l = (l \<noteq> [] \<and> last l = CHR ''-'' \<and> list_all is_digit (butlast l))"

definition numbers_of :: "string \<Rightarrow> int list" where
  \<comment> \<open>the lines that consist solely of digits, each parsed as an integer\<close>
  "numbers_of text = map dec (filter digits_line (py_split [LF] text))"

definition discounts_of :: "string \<Rightarrow> int list" where
  \<comment> \<open>the lines of digits with a final \<open>-\<close>, each stripped of it, parsed and negated\<close>
  "discounts_of text = map (\<lambda>x. - dec (butlast x)) (filter negative_line (py_split [LF] text))"

fun line_before :: "string \<Rightarrow> string list \<Rightarrow> string option" where
  \<comment> \<open>the first line that is directly followed by a line beginning with \<open>mark\<close>\<close>
  "line_before mark (l # l' # ls) = (if prefix mark l' then Some l else line_before mark (l' # ls))"
| "line_before mark _ = None"

definition paired :: "string list list \<Rightarrow> string list list \<Rightarrow> string list list" where
  \<comment> \<open>description \<open>i\<close> with the two fields of price \<open>i\<close>, up to the shorter list; the
      descriptions that have no price are left as they are\<close>
  "paired descs prices =
     map (\<lambda>(d, p). d @ [p ! 0, p ! 1]) (zip descs prices) @ drop (length prices) descs"

definition kept :: "string list \<Rightarrow> bool" where
  \<comment> \<open>exactly four fields, and the description is not \<open>SUBTOTAL\<close>\<close>
  "kept x = (length x = 4 \<and> x ! 1 \<noteq> ''SUBTOTAL'')"

definition reads_file_only :: "'a call \<Rightarrow> bool" where
  \<comment> \<open>the result depends on the attribute \<open>file\<close> alone, and \<open>file\<close> is left as it was\<close>
  "reads_file_only f =
     (\<forall>s s'. file s' = file s \<longrightarrow> fst (f s') = fst (f s) \<and> file (snd (f s)) = file s)"

definition leaves_instance :: "'a call \<Rightarrow> bool" where
  \<comment> \<open>no attribute is written\<close>
  "leaves_instance f = (\<forall>s. snd (f s) = s)"

definition address_example :: string where
  \<comment> \<open>the texts of the examples\<close>
  "address_example = ''123 Main St'' @ [LF] @ ''TEL:555'' @ [LF] @ ''VENDEDOR'' @ [LF] @ ''...''"

definition address_one_line :: string where
  "address_one_line = ''123 Main St TEL:555'' @ [LF] @ ''VENDEDOR'' @ [LF] @ ''...''"

definition total_example :: string where
  "total_example = ''100'' @ [LF] @ ''15'' @ [LF] @ ''85'' @ [LF] @ ''15-''"

definition total_example_absent :: string where
  "total_example_absent = ''100'' @ [LF] @ ''15'' @ [LF] @ ''15-''"

definition subtotal_example :: string where
  "subtotal_example = ''10'' @ [LF] @ ''25'' @ [LF] @ ''7''"

definition widget_example :: string where
  "widget_example = ''1234567890123 WIDGET'' @ [LF]"

definition receipt_example :: string where
  "receipt_example =
     ''CALLE 1 TEL: 55'' @ [LF] @ ''VENDEDOR X'' @ [LF] @ ''TIQUETE 00045'' @ [LF] @
     ''01/02/2020'' @ [LF] @ ''1234567890123 WIDGET'' @ [LF] @ ''SUBTOTAL'' @ [LF] @
     ''100'' @ [LF] @ ''500 A'' @ [LF] @ ''85'' @ [LF] @ ''15-'' @ [LF] @ ''15'' @ [LF]"

declare findall_from.simps [simp del]

section \<open>Properties\<close>

subsection \<open>The methods in closed form\<close>

lemma py_split_not_Nil: "py_split sep s \<noteq> []"
  by (induction sep s rule: py_split.induct) (auto split: list.splits)

lemma index_split_0: "index (py_split sep s) 0 = Inr (hd (py_split sep s))"
  using py_split_not_Nil [of sep s] by (cases "py_split sep s") (auto simp: index_def)

lemma search_pattern_eq:
  "search_pattern p s = (case re_search p (file s) of None \<Rightarrow> Inl AttributeError | Some t \<Rightarrow> Inr t, s)"
  by (simp add: search_pattern_def split: option.splits)

lemma get_address_eq:
  "get_address s =
     (case re_search address_pattern (file s) of None \<Rightarrow> Inl AttributeError
      | Some t \<Rightarrow> Inr (py_strip (hd (py_split ''TEL:'' t))), s)"
  by (simp add: get_address_def and_then_def search_pattern_def lift_def ret_def index_split_0
      split: option.splits)

lemma get_subtotal_eq:
  "get_subtotal s =
     (case for_each to_int (re_findall number_pattern (file s)) of
        Inl e \<Rightarrow> (Inl e, s)
      | Inr ns \<Rightarrow> (py_max ns, s\<lparr>numbers := Some ns\<rparr>))"
  by (simp add: get_subtotal_def and_then_def get_all_matches_def lift_def set_numbers_def
      read_numbers_def split: sum.splits)

lemma get_total_eq:
  "get_total s =
     (case for_each (\<lambda>x. map_sum id (\<lambda>v. v * - 1) (to_int (py_replace ''-'' [] x))) (re_findall negative_pattern (file s)) of
        Inl e \<Rightarrow> (Inl e, s)
      | Inr ds \<Rightarrow>
         (case for_each to_int (re_findall number_pattern (file s)) of
            Inl e \<Rightarrow> (Inl e, s)
          | Inr ns \<Rightarrow>
             (case py_max ns of
                Inl e \<Rightarrow> (Inl e, s\<lparr>numbers := Some ns\<rparr>)
              | Inr sub \<Rightarrow>
                 (Inr (if sub + sum_list ds \<in> set ns then sub + sum_list ds else sub),
                  s\<lparr>numbers := Some ns\<rparr>))))"
  by (simp add: get_total_def and_then_def get_all_matches_def lift_def read_numbers_def ret_def
      get_subtotal_eq Let_def split: sum.splits)

subsection \<open>Patterns that match whole lines\<close>

lemma code_LF [simp]: "code LF = 10" by (simp add: code_def LF_def)

lemma is_digit_LF [simp]: "\<not> is_digit LF" by (simp add: is_digit_def)

lemma is_digit_minus [simp]: "\<not> is_digit (CHR ''-'')" by (simp add: is_digit_def code_def)

lemma LF_minus [simp]: "LF \<noteq> CHR ''-''" "CHR ''-'' \<noteq> LF" by (simp_all add: LF_def)

lemma line_simps [simp]:
  "line [] = []" "line (LF # a) = []" "x \<noteq> LF \<Longrightarrow> line (x # a) = x # line a"
  by (simp_all add: line_def)

lemma rest_simps [simp]:
  "rest [] = []" "rest (LF # a) = LF # a" "x \<noteq> LF \<Longrightarrow> rest (x # a) = rest a"
  by (simp_all add: rest_def)

lemma line_rest: "line a @ rest a = a"
  by (simp add: line_def rest_def)

lemma one_simps [simp]:
  "one P (b, [], c) = []"
  "one P (b, x # a, c) = (if P x then [(x # b, a, c)] else [])"
  by (simp_all add: one_def)

lemma pos_simp [simp]: "pos (b, a, c) = length a"
  by (simp add: pos_def)

lemma iter_bound: "pos p \<le> n \<Longrightarrow> iter n f p = iter (pos p) f p"
proof (induction n arbitrary: p rule: less_induct)
  case (less n)
  have step: "iter (Suc k) f p =
      concat (map (\<lambda>q. if pos q < pos p then iter (pos q) f q else []) (f p)) @ [p]"
    if "k < n \<or> Suc k = n" "pos p \<le> Suc k" for k
  proof -
    have "(if pos q < pos p then iter k f q else []) =
        (if pos q < pos p then iter (pos q) f q else [])" for q
    proof (cases "pos q < pos p")
      case True
      with that have "pos q \<le> k" by simp
      show ?thesis
      proof (cases "k < n")
        case True
        then show ?thesis using less.IH [of k q] \<open>pos q \<le> k\<close> by simp
      next
        case False
        with that have n: "n = Suc k" by simp
        show ?thesis
        proof (cases "pos q = k")
          case True
          then show ?thesis by simp
        next
          case False
          with \<open>pos q \<le> k\<close> have "pos q < k" by simp
          then show ?thesis
            using less.IH [of k q] n \<open>pos q < pos p\<close> by simp
        qed
      qed
    next
      case False
      then show ?thesis by simp
    qed
    then show ?thesis by simp
  qed
  show ?case
  proof (cases n)
    case 0
    with less.prems show ?thesis by simp
  next
    case (Suc k)
    show ?thesis
    proof (cases "pos p")
      case 0
      then show ?thesis by (simp add: Suc)
    next
      case (Suc j)
      with less.prems \<open>n = Suc k\<close> have j: "j \<le> k" by simp
      have a: "iter (Suc k) f p =
          concat (map (\<lambda>q. if pos q < pos p then iter (pos q) f q else []) (f p)) @ [p]"
        using less.prems \<open>n = Suc k\<close> by (intro step) simp_all
      have b: "iter (Suc j) f p =
          concat (map (\<lambda>q. if pos q < pos p then iter (pos q) f q else []) (f p)) @ [p]"
        using j \<open>n = Suc k\<close> Suc by (intro step) simp_all
      show ?thesis using a b \<open>n = Suc k\<close> Suc by simp
    qed
  qed
qed

lemma iter_one_Nil [simp]: "iter n (one P) (b, [], c) = [(b, [], c)]"
  by (cases n) simp_all

lemma iter_one_Cons:
  "iter (Suc n) (one P) (b, x # a, c) =
     (if P x then iter n (one P) (x # b, a, c) else []) @ [(b, x # a, c)]"
  by simp

lemma m_class_eta [simp]:
  "(\<lambda>q. m Digit q) = one is_digit" "(\<lambda>q. m Dot q) = one is_dot"
  by (rule ext, simp)+

text \<open>digits then end of line\<close>

lemma digits_then_eol:
  "length a \<le> n \<Longrightarrow>
   concat (map (m Eol) (iter n (one is_digit) (b, a, c))) =
     (if list_all is_digit (line a) then [(rev (line a) @ b, rest a, c)] else [])"
proof (induction a arbitrary: b n)
  case Nil
  then show ?case by (simp add: at_eol_def)
next
  case (Cons x a)
  then obtain n' where n: "n = Suc n'" and le: "length a \<le> n'"
    by (cases n) auto
  have step: "concat (map (m Eol) (iter (Suc n') (one is_digit) (b, x # a, c))) =
      (if is_digit x then concat (map (m Eol) (iter n' (one is_digit) (x # b, a, c))) else [])
        @ m Eol (b, x # a, c)"
    by (simp del: iter.simps m.simps add: iter_one_Cons)
  have eol: "m Eol (b, x # a, c) = (if x = LF then [(b, x # a, c)] else [])"
    by (simp add: at_eol_def)
  show ?case
    unfolding n step Cons.IH [OF le] eol by (cases "x = LF") auto
qed

lemma m_number_pattern:
  "m number_pattern (b, a, c) =
     (if at_bol b \<and> digits_line (line a) then [(rev (line a) @ b, rest a, c)] else [])"
proof (cases a)
  case Nil
  then show ?thesis by (simp add: number_pattern_def Plus_def digits_line_def)
next
  case (Cons x a')
  show ?thesis
  proof (cases "is_digit x")
    case True
    then have "x \<noteq> LF" by auto
    then show ?thesis
      using True Cons digits_then_eol [of a' "length a'" "x # b" c]
      by (simp add: number_pattern_def Plus_def digits_line_def)
  next
    case False
    then show ?thesis
      using Cons by (cases "x = LF") (simp_all add: number_pattern_def Plus_def digits_line_def)
  qed
qed

lemma minus_tail_simps:
  "\<not> minus_tail []"
  "minus_tail (x # l) = (if is_digit x then minus_tail l else x = CHR ''-'' \<and> l = [])"
  by (auto simp: minus_tail_def)

lemma line_Nil_iff: "line a = [] \<longleftrightarrow> at_eol a"
  by (cases a) (auto simp: at_eol_def line_def)

lemma rest_at_eol: "at_eol a \<Longrightarrow> rest a = a"
  by (cases a) (auto simp: at_eol_def)

lemma digits_then_minus_eol:
  "length a \<le> n \<Longrightarrow>
   concat (map (m (Seq (Chr (CHR ''-'')) Eol)) (iter n (one is_digit) (b, a, c))) =
     (if minus_tail (line a) then [(rev (line a) @ b, rest a, c)] else [])"
proof (induction a arbitrary: b n)
  case Nil
  then show ?case by (simp add: minus_tail_simps)
next
  case (Cons x a)
  then obtain n' where n: "n = Suc n'" and le: "length a \<le> n'"
    by (cases n) auto
  let ?T = "Seq (Chr (CHR ''-'')) Eol"
  have step: "concat (map (m ?T) (iter (Suc n') (one is_digit) (b, x # a, c))) =
      (if is_digit x then concat (map (m ?T) (iter n' (one is_digit) (x # b, a, c))) else [])
        @ m ?T (b, x # a, c)"
    by (simp del: iter.simps m.simps add: iter_one_Cons)
  have tail: "m ?T (b, x # a, c) =
      (if x = CHR ''-'' \<and> at_eol a then [(x # b, a, c)] else [])"
    by simp
  show ?case
  proof (cases "x = LF")
    case True
    then show ?thesis unfolding n step tail by (simp add: minus_tail_simps)
  next
    case False
    then show ?thesis
      unfolding n step Cons.IH [OF le] tail
      by (auto simp: minus_tail_simps line_Nil_iff rest_at_eol)
  qed
qed

lemma m_negative_pattern:
  "m negative_pattern (b, a, c) =
     (if at_bol b \<and> negative_line (line a) then [(rev (line a) @ b, rest a, c)] else [])"
proof (cases a)
  case Nil
  then show ?thesis by (simp add: negative_pattern_def Plus_def negative_line_def)
next
  case (Cons x a')
  have nl: "negative_line (x # l) = (is_digit x \<and> minus_tail l)" for l
    by (cases l rule: rev_cases) (auto simp: negative_line_def digits_line_def minus_tail_def)
  show ?thesis
  proof (cases "is_digit x")
    case True
    then have "x \<noteq> LF" by auto
    then show ?thesis
      using True Cons digits_then_minus_eol [of a' "length a'" "x # b" c]
      by (simp add: negative_pattern_def Plus_def nl del: m.simps(1,8))
  next
    case False
    then show ?thesis
      using Cons
      by (cases "x = LF") (simp_all add: negative_pattern_def Plus_def nl negative_line_def digits_line_def)
  qed
qed

lemma py_split_LF_Cons:
  "py_split [LF] (x # a) =
     (if x = LF then [] # py_split [LF] a
      else (x # hd (py_split [LF] a)) # tl (py_split [LF] a))"
  using py_split_not_Nil [of "[LF]" a] by (cases "py_split [LF] a") auto

lemma hd_py_split_LF: "hd (py_split [LF] a) = line a"
  by (induction a) (auto simp: py_split_LF_Cons simp del: py_split.simps(2))

lemma py_split_LF_line: "py_split [LF] a = line a # tl (py_split [LF] (rest a))"
  by (induction a) (auto simp: py_split_LF_Cons hd_py_split_LF simp del: py_split.simps(2))

lemma LF_notin_line: "LF \<notin> set (line a)"
  by (induction a) (auto simp: line_def)

lemma length_line_rest: "length (line a) + length (rest a) = length a"
  using arg_cong [OF line_rest, of length a] by simp

lemma length_rest_less: "line a \<noteq> [] \<Longrightarrow> length (rest a) < length a"
  using length_line_rest [of a] by (cases "line a") auto

lemma not_at_bol_line: "line a \<noteq> [] \<Longrightarrow> \<not> at_bol (rev (line a) @ b)"
  using LF_notin_line [of a]
  by (cases "line a" rule: rev_cases) (auto simp: at_bol_def)

lemma findall_lines:
  assumes r: "\<And>b a. m r (b, a, []) =
      (if at_bol b \<and> P (line a) then [(rev (line a) @ b, rest a, [])] else [])"
    and P: "\<not> P []"
  shows "findall_from r must b a =
     map (\<lambda>l. (l, [])) (filter P (if at_bol b then py_split [LF] a else tl (py_split [LF] a)))"
proof (induction "length a" arbitrary: a b must rule: less_induct)
  case less
  show ?case
  proof (cases "at_bol b \<and> P (line a)")
    case True
    let ?q = "(rev (line a) @ b, rest a, [])"
    from True P have ne: "line a \<noteq> []" by auto
    then have lt: "length (rest a) < length a" by (rule length_rest_less)
    have acc: "accept must a (m r (b, a, [])) = Some ?q"
      using True lt by (simp add: r accept_def)
    have mt: "matched a ?q = line a"
      using length_line_rest [of a] line_rest [of a]
      by (simp add: matched_def) (metis append_eq_conv_conj add_diff_cancel_right')
    have IH: "findall_from r False (rev (line a) @ b) (rest a) =
        map (\<lambda>l. (l, [])) (filter P (tl (py_split [LF] (rest a))))"
      using less [OF lt, of False "rev (line a) @ b"] not_at_bol_line [OF ne, of b] by simp
    have "findall_from r must b a = (line a, []) # findall_from r False (rev (line a) @ b) (rest a)"
      using lt by (subst findall_from.simps) (simp add: acc mt)
    also have "\<dots> = map (\<lambda>l. (l, [])) (filter P (py_split [LF] a))"
      using True by (subst py_split_LF_line [of a]) (simp add: IH)
    finally show ?thesis using True by simp
  next
    case False
    then have acc: "accept must a (m r (b, a, [])) = None"
      by (auto simp add: r accept_def)
    have unf: "findall_from r must b a =
        (case a of [] \<Rightarrow> [] | x # a' \<Rightarrow> findall_from r False (x # b) a')"
      by (subst findall_from.simps) (simp add: acc)
    show ?thesis
    proof (cases a)
      case Nil
      then show ?thesis
        using P unf by simp
    next
      case (Cons x a')
      have bol: "at_bol (x # b) = (x = LF)" by (simp add: at_bol_def)
      have "findall_from r must b a = findall_from r False (x # b) a'"
        using Cons unf by simp
      also have "\<dots> = map (\<lambda>l. (l, []))
          (filter P (if x = LF then py_split [LF] a' else tl (py_split [LF] a')))"
        using less [of a' False "x # b"] Cons by (simp add: bol)
      also have "\<dots> = map (\<lambda>l. (l, []))
          (filter P (if at_bol b then py_split [LF] a else tl (py_split [LF] a)))"
        using False Cons P
        by (auto simp: py_split_LF_Cons hd_py_split_LF simp del: py_split.simps(2))
      finally show ?thesis .
    qed
  qed
qed

lemma re_findall_lines:
  assumes "\<And>b a. m r (b, a, []) =
      (if at_bol b \<and> P (line a) then [(rev (line a) @ b, rest a, [])] else [])"
    and "\<not> P []"
  shows "re_findall r s = filter P (py_split [LF] s)"
  using findall_lines [of r P False "[]" s, OF assms]
  by (simp add: re_findall_def at_bol_def comp_def)

lemma re_findall_number: "re_findall number_pattern s = filter digits_line (py_split [LF] s)"
  by (rule re_findall_lines) (simp_all add: m_number_pattern digits_line_def)

lemma re_findall_negative: "re_findall negative_pattern s = filter negative_line (py_split [LF] s)"
  by (rule re_findall_lines) (simp_all add: m_negative_pattern negative_line_def)

subsection \<open>Integers, subtotal and total\<close>

lemma is_digit_not_int_space: "is_digit x \<Longrightarrow> \<not> is_int_space x"
  by (auto simp: is_digit_def is_int_space_def)

lemma is_digit_not_sign: "is_digit x \<Longrightarrow> x \<noteq> CHR ''-'' \<and> x \<noteq> CHR ''+'' \<and> x \<noteq> CHR ''_''"
  by (auto simp: is_digit_def code_def)

lemma int_body_digits: "list_all is_digit ds \<Longrightarrow> ds \<noteq> [] \<Longrightarrow> int_body ds"
  by (induction ds rule: int_body.induct) (auto dest: is_digit_not_sign)

lemma filter_digits: "list_all is_digit ds \<Longrightarrow> filter (\<lambda>ch. ch \<noteq> c) ds = ds \<or> is_digit c"
  by (induction ds) auto

lemma filter_underscore: "list_all is_digit ds \<Longrightarrow> filter (\<lambda>ch. ch \<noteq> CHR ''_'') ds = ds"
  using filter_digits [of ds "CHR ''_''"] is_digit_not_sign [of "CHR ''_''"] by auto

lemma filter_minus: "list_all is_digit ds \<Longrightarrow> filter (\<lambda>ch. ch \<noteq> CHR ''-'') ds = ds"
  using filter_digits [of ds "CHR ''-''"] by auto

lemma strip_digits:
  assumes "digits_line ds"
  shows "rev (dropWhile is_int_space (rev (dropWhile is_int_space ds))) = ds"
proof -
  from assms obtain x r where ds: "ds = x # r" and x: "is_digit x"
    by (cases ds) (auto simp: digits_line_def)
  from assms obtain y r' where ds': "ds = r' @ [y]" and y: "is_digit y"
    by (cases ds rule: rev_cases) (auto simp: digits_line_def)
  have "dropWhile is_int_space ds = ds"
    using ds x by (simp add: is_digit_not_int_space)
  moreover have "dropWhile is_int_space (rev ds) = rev ds"
    using ds' y by (simp add: is_digit_not_int_space)
  ultimately show ?thesis by simp
qed

lemma py_int_digits: "digits_line ds \<Longrightarrow> py_int ds = Some (dec ds)"
proof -
  assume d: "digits_line ds"
  then obtain x r where ds: "ds = x # r" and x: "is_digit x" and all: "list_all is_digit ds"
    by (cases ds) (auto simp: digits_line_def)
  have body: "int_body ds" using all ds by (intro int_body_digits) auto
  show ?thesis
    unfolding py_int_def strip_digits [OF d] Let_def
    using is_digit_not_sign [OF x] body filter_underscore [OF all]
    by (simp add: ds)
qed

lemma to_int_digits: "digits_line ds \<Longrightarrow> to_int ds = Inr (dec ds)"
  by (simp add: to_int_def py_int_digits)

lemma for_each_Inr: "list_all (\<lambda>x. f x = Inr (g x)) xs \<Longrightarrow> for_each f xs = Inr (map g xs)"
  by (induction xs) auto

lemma py_replace_single: "py_replace [c] [] x = filter (\<lambda>ch. ch \<noteq> c) x"
  by (induction x) auto

lemma negated_line:
  assumes "negative_line x"
  shows "map_sum id (\<lambda>v. v * - 1) (to_int (py_replace ''-'' [] x)) = Inr (- dec (butlast x))"
proof -
  from assms have x: "x = butlast x @ ''-''" and d: "digits_line (butlast x)"
    by (auto simp: negative_line_def) (metis append_butlast_last_id)
  have "py_replace ''-'' [] x = filter (\<lambda>ch. ch \<noteq> CHR ''-'') (butlast x @ ''-'')"
    using x by (simp add: py_replace_single)
  also have "\<dots> = butlast x"
    using d by (simp add: filter_minus digits_line_def)
  finally show ?thesis by (simp add: to_int_digits [OF d])
qed

lemma dec_nonneg_aux: "list_all is_digit ds \<Longrightarrow> 0 \<le> n \<Longrightarrow> 0 \<le> foldl (\<lambda>n ch. 10 * n + (code ch - 48)) n ds"
  by (induction ds arbitrary: n) (auto simp: is_digit_def)

lemma dec_nonneg: "list_all is_digit ds \<Longrightarrow> 0 \<le> dec ds"
  by (simp add: dec_def dec_nonneg_aux)

lemma py_max_Max: "ns \<noteq> [] \<Longrightarrow> py_max ns = Inr (Max (set ns))"
proof -
  assume "ns \<noteq> []"
  then obtain x r where ns: "ns = x # r" by (cases ns) auto
  have flip: "(\<lambda>y s. max s y) = (max :: int \<Rightarrow> int \<Rightarrow> int)"
    by (intro ext) (rule max.commute)
  have "foldl max x r = fold max r x"
    by (simp add: foldl_conv_fold flip)
  also have "\<dots> = Max (set (x # r))"
    by (rule Max.set_eq_fold [symmetric])
  finally show ?thesis by (simp add: py_max_def ns)
qed

lemma for_each_numbers:
  "for_each to_int (re_findall number_pattern text) = Inr (numbers_of text)"
  unfolding re_findall_number numbers_of_def
  by (rule for_each_Inr) (simp add: list_all_iff to_int_digits)

lemma for_each_discounts:
  "for_each (\<lambda>x. map_sum id (\<lambda>v. v * - 1) (to_int (py_replace ''-'' [] x)))
     (re_findall negative_pattern text) = Inr (discounts_of text)"
  unfolding re_findall_negative discounts_of_def
  by (rule for_each_Inr) (use negated_line in \<open>simp add: list_all_iff\<close>)

lemma get_subtotal_lines:
  "get_subtotal s =
     (if numbers_of (file s) = [] then Inl ValueError else Inr (Max (set (numbers_of (file s)))),
      s\<lparr>numbers := Some (numbers_of (file s))\<rparr>)"
proof (cases "numbers_of (file s) = []")
  case True
  then show ?thesis unfolding get_subtotal_eq for_each_numbers by (simp add: py_max_def)
next
  case False
  then show ?thesis unfolding get_subtotal_eq for_each_numbers by (simp add: py_max_Max)
qed

lemma get_total_lines:
  "get_total s =
     (if numbers_of (file s) = [] then Inl ValueError
      else Inr (if Max (set (numbers_of (file s))) + sum_list (discounts_of (file s)) \<in> set (numbers_of (file s))
                then Max (set (numbers_of (file s))) + sum_list (discounts_of (file s))
                else Max (set (numbers_of (file s)))),
      s\<lparr>numbers := Some (numbers_of (file s))\<rparr>)"
proof (cases "numbers_of (file s) = []")
  case True
  then show ?thesis unfolding get_total_eq for_each_numbers for_each_discounts by (simp add: py_max_def)
next
  case False
  then show ?thesis unfolding get_total_eq for_each_numbers for_each_discounts by (simp add: py_max_Max)
qed

lemma discounts_nonpos: "sum_list (discounts_of text) \<le> 0"
proof -
  have "list_all (\<lambda>d. d \<le> 0) (discounts_of text)"
    by (auto simp: discounts_of_def list_all_iff negative_line_def digits_line_def dec_nonneg)
  then show ?thesis
    by (intro sum_list_nonpos) (simp add: list_all_iff)
qed

subsection \<open>The address pattern\<close>

lemma m_lits:
  "str \<noteq> [] \<Longrightarrow>
   m (lits str) (b, a, c) = (if prefix str a then [(rev str @ b, drop (length str) a, c)] else [])"
proof (induction str arbitrary: b a rule: lits.induct)
  case 1
  then show ?case by simp
next
  case (2 x)
  then show ?case by (cases a) auto
next
  case (3 x y ys)
  then show ?case by (cases a) auto
qed

lemma m_ahead_lits:
  "str \<noteq> [] \<Longrightarrow> m (Ahead (lits str)) (b, a, c) = (if prefix str a then [(b, a, c)] else [])"
  by (simp add: m_lits del: lits.simps)

lemma dots_then_ahead:
  assumes str: "str = LF # v"
  shows "length a \<le> n \<Longrightarrow>
   concat (map (m (Ahead (lits str))) (iter n (one is_dot) (b, a, c))) =
     (if prefix str (rest a) then [(rev (line a) @ b, rest a, c)] else [])"
proof (induction a arbitrary: b n)
  case Nil
  then show ?case using str by (simp add: m_ahead_lits del: m.simps lits.simps)
next
  case (Cons x a)
  then obtain n' where n: "n = Suc n'" and le: "length a \<le> n'"
    by (cases n) auto
  let ?T = "Ahead (lits str)"
  have step: "concat (map (m ?T) (iter (Suc n') (one is_dot) (b, x # a, c))) =
      (if is_dot x then concat (map (m ?T) (iter n' (one is_dot) (x # b, a, c))) else [])
        @ m ?T (b, x # a, c)"
    by (simp del: iter.simps m.simps lits.simps add: iter_one_Cons)
  have tail: "m ?T (b, x # a, c) = (if prefix str (x # a) then [(b, x # a, c)] else [])"
    using str by (simp add: m_ahead_lits del: m.simps lits.simps)
  show ?case
    unfolding n step Cons.IH [OF le] tail
    using str by (cases "x = LF") (auto simp: is_dot_def)
qed

lemma m_address_pattern:
  "m address_pattern (b, a, c) =
     (if prefix (LF # ''VENDEDOR'') (rest a) then [(rev (line a) @ b, rest a, c)] else [])"
  using dots_then_ahead [of "LF # ''VENDEDOR''" "''VENDEDOR''" a "length a" b c]
  by (simp add: address_pattern_def del: lits.simps m.simps(16))

lemma prefix_line:
  "LF \<notin> set v \<Longrightarrow> prefix v (line a) = prefix v a"
proof (induction a arbitrary: v)
  case Nil
  then show ?case by simp
next
  case (Cons x a)
  then show ?case by (cases v; cases "x = LF") auto
qed

lemma matched_line: "matched a (rev (line a) @ b, rest a, c) = line a"
  using length_line_rest [of a] line_rest [of a]
  by (simp add: matched_def) (metis append_eq_conv_conj add_diff_cancel_right')

lemma search_address:
  "map_option (\<lambda>(a, q). matched a q) (search_from address_pattern b a) =
     line_before ''VENDEDOR'' (py_split [LF] a)"
proof (induction a arbitrary: b)
  case Nil
  then show ?case by (simp add: m_address_pattern accept_def)
next
  case (Cons x a)
  let ?a = "x # a"
  have V: "LF \<notin> set ''VENDEDOR''" by (simp add: LF_def)
  have split: "py_split [LF] ?a = line ?a # tl (py_split [LF] (rest ?a))"
    by (rule py_split_LF_line)
  show ?case
  proof (cases "prefix (LF # ''VENDEDOR'') (rest ?a)")
    case True
    then obtain r where r: "rest ?a = LF # r" and p: "prefix ''VENDEDOR'' r"
      by (cases "rest ?a") auto
    have tl: "tl (py_split [LF] (rest ?a)) = line r # tl (py_split [LF] (rest r))"
      using py_split_LF_line [of r] by (simp add: r py_split_LF_Cons del: py_split.simps(2))
    have "line_before ''VENDEDOR'' (py_split [LF] ?a) = Some (line ?a)"
      using p by (subst split) (simp add: tl prefix_line [OF V])
    moreover have "search_from address_pattern b ?a = Some (?a, (rev (line ?a) @ b, rest ?a, []))"
      using True by (simp add: m_address_pattern accept_def del: line_simps rest_simps)
    ultimately show ?thesis by (simp add: matched_line del: line_simps rest_simps)
  next
    case False
    then have s: "search_from address_pattern b ?a = search_from address_pattern (x # b) a"
      by (simp add: m_address_pattern accept_def del: line_simps rest_simps)
    have "line_before ''VENDEDOR'' (py_split [LF] ?a) = line_before ''VENDEDOR'' (py_split [LF] a)"
    proof (cases "x = LF")
      case True
      with False have "\<not> prefix ''VENDEDOR'' (line a)"
        by (simp add: prefix_line [OF V])
      then show ?thesis
        using True py_split_LF_line [of a]
        by (simp add: py_split_LF_Cons del: py_split.simps(2))
    next
      case x: False
      show ?thesis
      proof (cases "rest a")
        case Nil
        then have "tl (py_split [LF] (rest a)) = []" by simp
        then show ?thesis
          using x py_split_LF_line [of a] py_split_LF_line [of ?a] by simp
      next
        case (Cons y r)
        then have y: "y = LF"
          using hd_dropWhile [of "\<lambda>x. x \<noteq> LF" a] by (auto simp: rest_def)
        with False x Cons have np: "\<not> prefix ''VENDEDOR'' (line r)"
          by (simp add: prefix_line [OF V])
        have "tl (py_split [LF] (rest a)) = line r # tl (py_split [LF] (rest r))"
          using py_split_LF_line [of r] Cons y by (simp add: py_split_LF_Cons del: py_split.simps(2))
        then show ?thesis
          using x np py_split_LF_line [of a] py_split_LF_line [of ?a] by simp
      qed
    qed
    then show ?thesis using Cons.IH [of "x # b"] s by simp
  qed
qed

lemma re_search_address:
  "re_search address_pattern text = line_before ''VENDEDOR'' (py_split [LF] text)"
  by (simp add: re_search_def search_address)

subsection \<open>Line items\<close>

lemma append_prices_append:
  "append_prices (xs @ ys) prices descs =
     (case append_prices xs prices descs of Inl e \<Rightarrow> Inl e
      | Inr descs' \<Rightarrow> append_prices ys prices descs')"
  by (induction xs arbitrary: descs) (auto split: sum.splits)

lemma paired_step:
  assumes k: "k < length descs" "k < length prices"
  shows "(map (\<lambda>(d, p). d @ [p ! 0, p ! 1]) (zip (take k descs) (take k prices)) @ drop k descs)
           [k := descs ! k @ [prices ! k ! 0, prices ! k ! 1]] =
         map (\<lambda>(d, p). d @ [p ! 0, p ! 1]) (zip (take (Suc k) descs) (take (Suc k) prices))
           @ drop (Suc k) descs"
proof -
  let ?f = "\<lambda>(d, p). d @ [p ! 0, p ! (1::nat)]"
  let ?z = "map ?f (zip (take k descs) (take k prices))"
  have len: "length ?z = k" using k by simp
  have d: "drop k descs = descs ! k # drop (Suc k) descs"
    using k by (simp add: Cons_nth_drop_Suc)
  have "(?z @ drop k descs)[k := descs ! k @ [prices ! k ! 0, prices ! k ! 1]] =
      ?z @ (descs ! k @ [prices ! k ! 0, prices ! k ! 1]) # drop (Suc k) descs"
    using len by (simp add: d list_update_append)
  moreover have "map ?f (zip (take (Suc k) descs) (take (Suc k) prices)) =
      ?z @ [descs ! k @ [prices ! k ! 0, prices ! k ! 1]]"
    using k by (simp add: take_Suc_conv_app_nth zip_append)
  ultimately show ?thesis by simp
qed

lemma append_price_ok:
  assumes k: "k < length descs" "k < length prices"
  shows "append_price prices k
           (map (\<lambda>(d, p). d @ [p ! 0, p ! 1]) (zip (take k descs) (take k prices)) @ drop k descs) =
         (if 2 \<le> length (prices ! k)
          then Inr (map (\<lambda>(d, p). d @ [p ! 0, p ! 1]) (zip (take (Suc k) descs) (take (Suc k) prices))
                 @ drop (Suc k) descs)
          else Inl IndexError)"
proof -
  define D where "D = map (\<lambda>(d, p). d @ [p ! 0, p ! (1::nat)]) (zip (take k descs) (take k prices))
      @ drop k descs"
  have nth: "D ! k = descs ! k" and lenD: "k < length D"
    using k by (simp_all add: D_def nth_append)
  have idxD: "index D k = Inr (descs ! k)"
    using nth lenD by (simp add: index_def)
  have idxP: "index prices k = Inr (prices ! k)"
    using k by (simp add: index_def)
  have upd: "D[k := descs ! k @ [prices ! k ! 0, prices ! k ! 1]] =
      map (\<lambda>(d, p). d @ [p ! 0, p ! 1]) (zip (take (Suc k) descs) (take (Suc k) prices))
        @ drop (Suc k) descs"
    unfolding D_def by (rule paired_step [OF k])
  have "append_price prices k D =
      (if 2 \<le> length (prices ! k)
       then Inr (D[k := descs ! k @ [prices ! k ! 0, prices ! k ! 1]])
       else Inl IndexError)"
    using k nth lenD by (auto simp: append_price_def index_def)
  then show ?thesis
    unfolding upd unfolding D_def .
qed

lemma append_prices_upt:
  "k \<le> length descs \<Longrightarrow> k \<le> length prices \<Longrightarrow>
   append_prices [0 ..< k] prices descs =
     (if list_all (\<lambda>p. 2 \<le> length p) (take k prices)
      then Inr (map (\<lambda>(d, p). d @ [p ! 0, p ! 1]) (zip (take k descs) (take k prices)) @ drop k descs)
      else Inl IndexError)"
proof (induction k)
  case 0
  then show ?case by simp
next
  case (Suc k)
  then have k: "k < length descs" "k < length prices" by auto
  have all: "list_all (\<lambda>p. 2 \<le> length p) (take (Suc k) prices) =
      (list_all (\<lambda>p. 2 \<le> length p) (take k prices) \<and> 2 \<le> length (prices ! k))"
    using k by (simp add: take_Suc_conv_app_nth)
  have IH: "append_prices [0 ..< k] prices descs =
     (if list_all (\<lambda>p. 2 \<le> length p) (take k prices)
      then Inr (map (\<lambda>(d, p). d @ [p ! 0, p ! 1]) (zip (take k descs) (take k prices)) @ drop k descs)
      else Inl IndexError)"
    using Suc.IH k by simp
  have one: "append_prices [k] prices D = append_price prices k D" for D
    by (simp split: sum.splits)
  have "append_prices [0 ..< Suc k] prices descs =
      (case append_prices [0 ..< k] prices descs of Inl e \<Rightarrow> Inl e
       | Inr descs' \<Rightarrow> append_price prices k descs')"
    by (simp add: append_prices_append one del: append_prices.simps split: sum.splits)
  then show ?case
    unfolding IH all using append_price_ok [OF k] by (simp split: if_splits)
qed

lemma append_prices_paired:
  "append_prices [0 ..< min (length descs) (length prices)] prices descs =
     (if list_all (\<lambda>p. 2 \<le> length p) (take (length descs) prices)
      then Inr (paired descs prices) else Inl IndexError)"
proof -
  let ?k = "min (length descs) (length prices)"
  have z: "zip (take ?k descs) (take ?k prices) = zip descs prices"
    by (metis take_zip length_zip take_all order_refl)
  have d: "drop ?k descs = drop (length prices) descs"
    by (simp add: min_def)
  have t: "take ?k prices = take (length descs) prices"
    by (simp add: min_def)
  show ?thesis
    using append_prices_upt [of ?k descs prices]
    unfolding z unfolding d t paired_def by simp
qed

lemma complete_items_filter:
  "complete_items xs = for_each make_item (filter kept xs)"
  by (induction xs) (auto simp: kept_def split: sum.splits)

lemma items_group_paired:
  "items_group descs prices =
     (if list_all (\<lambda>p. 2 \<le> length p) (take (length descs) prices)
      then for_each make_item (filter kept (paired descs prices))
      else Inl IndexError)"
  by (simp add: items_group_def append_prices_paired complete_items_filter)

text \<open>the raw lists hold pairs\<close>

lemma clean_items_pairs: "list_all (\<lambda>x. length x = 2) (clean_items xs)"
  by (induction xs rule: clean_items.induct) auto

lemma py_split_mem: "c \<in> set s \<Longrightarrow> 2 \<le> length (py_split [c] s)"
proof (induction s)
  case Nil
  then show ?case by simp
next
  case (Cons x s)
  show ?case
  proof (cases "x = c")
    case True
    then show ?thesis
      using py_split_not_Nil [of "[c]" s] by (cases "py_split [c] s") auto
  next
    case False
    with Cons show ?thesis
      by (cases "py_split [c] s") auto
  qed
qed

lemma price_of_ok: "\<exists>ps. price_of elem2 = Inr ps \<and> list_all (\<lambda>p. length p = 2) ps"
  using py_split_mem [of "CHR '' ''" elem2]
  by (auto simp: price_of_def index_def)

lemma for_each_ok:
  "(\<And>x. \<exists>y. f x = Inr y \<and> P y) \<Longrightarrow> \<exists>ys. for_each f xs = Inr ys \<and> list_all P ys"
proof (induction xs)
  case Nil
  then show ?case by simp
next
  case (Cons x xs)
  from Cons.prems obtain y where "f x = Inr y" "P y" by blast
  moreover from Cons obtain ys where "for_each f xs = Inr ys" "list_all P ys" by blast
  ultimately show ?case by simp
qed

lemma list_all_concat: "list_all (list_all P) xss \<Longrightarrow> list_all P (concat xss)"
  by (induction xss) auto

lemma prices_of_ok: "\<exists>ps. prices_of elem = Inr ps \<and> list_all (\<lambda>p. length p = 2) ps"
proof -
  obtain pss where "for_each price_of (py_split [LF] elem) = Inr pss"
      "list_all (list_all (\<lambda>p. length p = 2)) pss"
    using for_each_ok [of price_of "list_all (\<lambda>p. length p = 2)", OF price_of_ok] by blast
  then show ?thesis by (simp add: prices_of_def list_all_concat)
qed

lemma get_raw_prices_ok:
  "\<exists>ps. get_raw_prices s = (Inr ps, s) \<and> list_all (\<lambda>p. length p = 2) ps"
proof -
  obtain pss where "for_each prices_of (re_findall prices_pattern (file s)) = Inr pss"
      "list_all (list_all (\<lambda>p. length p = 2)) pss"
    using for_each_ok [of prices_of "list_all (\<lambda>p. length p = 2)", OF prices_of_ok] by blast
  then show ?thesis
    by (simp add: get_raw_prices_def and_then_def get_all_matches_def lift_def list_all_concat)
qed

lemma get_raw_sku_eq:
  "get_raw_sku_and_descriptions s = (Inr (clean_items (re_findall3 sku_pattern (file s))), s)"
  by (simp add: get_raw_sku_and_descriptions_def and_then_def get_all_matches3_def ret_def)

lemma complete_items_pairs: "list_all (\<lambda>x. length x = 2) xs \<Longrightarrow> complete_items xs = Inr []"
  by (induction xs) auto

lemma get_items_group_empty:
  assumes "fst (get_raw_sku_and_descriptions s) = Inr [] \<or> fst (get_raw_prices s) = Inr []"
  shows "get_items_group s = (Inr [], s)"
proof -
  obtain ps where ps: "get_raw_prices s = (Inr ps, s)"
    using get_raw_prices_ok [of s] by blast
  let ?ds = "clean_items (re_findall3 sku_pattern (file s))"
  have g: "get_items_group s = (items_group ?ds ps, s)"
    by (simp add: get_items_group_def and_then_def get_raw_sku_eq ps lift_def)
  from assms have "?ds = [] \<or> ps = []"
    by (simp add: get_raw_sku_eq ps)
  then have "items_group ?ds ps = Inr []"
    using clean_items_pairs [of "re_findall3 sku_pattern (file s)"]
    by (auto simp: items_group_def complete_items_pairs)
  with g show ?thesis by simp
qed

subsection \<open>What the methods read and write\<close>

lemma and_then_alt:
  "and_then f g s =
     (case fst (f s) of Inl e \<Rightarrow> (Inl e, snd (f s)) | Inr x \<Rightarrow> g x (snd (f s)))"
  by (simp add: and_then_def split: prod.splits sum.splits)

lemma rfoI:
  assumes "\<And>s s'. file s' = file s \<Longrightarrow> fst (f s') = fst (f s)"
    and "\<And>s. file (snd (f s)) = file s"
  shows "reads_file_only f"
  unfolding reads_file_only_def using assms by blast

lemma rfo_fst: "reads_file_only f \<Longrightarrow> file s' = file s \<Longrightarrow> fst (f s') = fst (f s)"
  unfolding reads_file_only_def by blast

lemma rfo_file: "reads_file_only f \<Longrightarrow> file (snd (f s)) = file s"
  unfolding reads_file_only_def by blast

lemma rfo_and_then:
  assumes f: "reads_file_only f" and g: "\<And>x. reads_file_only (g x)"
  shows "reads_file_only (and_then f g)"
proof (rule rfoI)
  fix s s' :: receipt
  assume eq: "file s' = file s"
  have r: "fst (f s') = fst (f s)" using f eq by (rule rfo_fst)
  have "file (snd (f s')) = file (snd (f s))"
    using eq rfo_file [OF f, of s] rfo_file [OF f, of s'] by simp
  then have gx: "fst (g x (snd (f s'))) = fst (g x (snd (f s)))" for x
    using g [of x] by (rule rfo_fst [rotated])
  show "fst (and_then f g s') = fst (and_then f g s)"
    unfolding and_then_alt r by (cases "fst (f s)") (simp_all add: gx)
next
  fix s :: receipt
  have gx: "file (snd (g x (snd (f s)))) = file s" for x
    using rfo_file [OF g, of x "snd (f s)"] rfo_file [OF f, of s] by simp
  show "file (snd (and_then f g s)) = file s"
    unfolding and_then_alt by (cases "fst (f s)") (simp_all add: gx rfo_file [OF f])
qed

lemma rfo_basic:
  "reads_file_only (ret x)" "reads_file_only (lift y)"
  "reads_file_only (search_pattern p)" "reads_file_only (get_all_matches p)"
  "reads_file_only (get_all_matches3 p)"
  by (rule rfoI; simp add: ret_def lift_def search_pattern_eq
      get_all_matches_def get_all_matches3_def)+

lemma rfo_get_subtotal: "reads_file_only get_subtotal"
  by (rule rfoI; simp add: get_subtotal_lines)

lemma rfo_get_total: "reads_file_only get_total"
  by (rule rfoI; simp add: get_total_lines)

lemma rfo_get_date: "reads_file_only get_date"
  by (simp add: get_date_def rfo_basic)

lemma rfo_get_address: "reads_file_only get_address"
  unfolding get_address_def by (intro rfo_and_then rfo_basic)

lemma rfo_get_invoice_number: "reads_file_only get_invoice_number"
  by (simp add: get_invoice_number_def rfo_basic)

lemma rfo_get_raw_sku: "reads_file_only get_raw_sku_and_descriptions"
  unfolding get_raw_sku_and_descriptions_def by (intro rfo_and_then rfo_basic)

lemma rfo_get_raw_prices: "reads_file_only get_raw_prices"
  unfolding get_raw_prices_def by (intro rfo_and_then rfo_basic)

lemma rfo_get_items_group: "reads_file_only get_items_group"
  unfolding get_items_group_def
  by (intro rfo_and_then rfo_basic rfo_get_raw_sku rfo_get_raw_prices)

lemma rfo_get_receipt_dictionary: "reads_file_only get_receipt_dictionary"
  unfolding get_receipt_dictionary_def
  by (intro rfo_and_then rfo_basic rfo_get_date rfo_get_address rfo_get_invoice_number
      rfo_get_subtotal rfo_get_total rfo_get_items_group)

lemma li_and_then:
  assumes f: "leaves_instance f" and g: "\<And>x. leaves_instance (g x)"
  shows "leaves_instance (and_then f g)"
  unfolding leaves_instance_def
proof
  fix s
  obtain r s' where fs: "f s = (r, s')" by (cases "f s")
  from f have "snd (f s) = s" by (simp add: leaves_instance_def)
  with fs have s': "s' = s" by simp
  show "snd (and_then f g s) = s"
  proof (cases r)
    case (Inl e)
    then show ?thesis unfolding and_then_def fs s' by simp
  next
    case (Inr x)
    from g [of x] have "snd (g x s) = s" by (simp add: leaves_instance_def)
    then show ?thesis unfolding and_then_def fs s' Inr by simp
  qed
qed

lemma li_basic:
  "leaves_instance (ret x)" "leaves_instance (lift y)"
  "leaves_instance (search_pattern p)" "leaves_instance (get_all_matches p)"
  "leaves_instance (get_all_matches3 p)"
  by (simp_all add: leaves_instance_def ret_def lift_def search_pattern_eq
      get_all_matches_def get_all_matches3_def)

lemma li_get_address: "leaves_instance get_address"
  unfolding get_address_def by (intro li_and_then li_basic)

lemma li_get_raw_sku: "leaves_instance get_raw_sku_and_descriptions"
  unfolding get_raw_sku_and_descriptions_def by (intro li_and_then li_basic)

lemma li_get_raw_prices: "leaves_instance get_raw_prices"
  unfolding get_raw_prices_def by (intro li_and_then li_basic)

lemma li_get_items_group: "leaves_instance get_items_group"
  unfolding get_items_group_def by (intro li_and_then li_basic li_get_raw_sku li_get_raw_prices)

subsection \<open>The claims\<close>

text \<open>
  C1, as the specification states it, fails on the specification's own example: the line
  before \<open>VENDEDOR\<close> is \<open>TEL:555\<close>, nothing is left of it in front of \<open>TEL:\<close>, and
  \<open>get_address\<close> returns the empty string, not \<open>123 Main St\<close>.
\<close>

theorem get_address_example_counterexample:
  "fst (get_address (init address_example)) = Inr [] \<and>
   fst (get_address (init address_example)) \<noteq> Inr ''123 Main St''"
  by code_simp

text \<open>
  C1, amended. The dot of the pattern does not match a line feed, so the match is a single
  line: \<open>get_address\<close> returns the first line of the text that is directly followed by a
  line beginning with \<open>VENDEDOR\<close> (\<open>line_before\<close>), cut at the first \<open>TEL:\<close> and
  stripped, and raises when the text has no such line.
\<close>

theorem get_address_line_before:
  "fst (get_address s) =
     (case line_before ''VENDEDOR'' (py_split [LF] (file s)) of
        None \<Rightarrow> Inl AttributeError
      | Some l \<Rightarrow> Inr (py_strip (hd (py_split ''TEL:'' l))))"
  by (simp add: get_address_eq re_search_address split: option.splits)

theorem get_address_line_before_witness:
  "line_before ''VENDEDOR'' (py_split [LF] (file (init address_one_line))) = Some ''123 Main St TEL:555'' \<and>
   fst (get_address (init address_one_line)) = Inr ''123 Main St''"
proof -
  have l: "line_before ''VENDEDOR'' (py_split [LF] (file (init address_one_line))) =
      Some ''123 Main St TEL:555''"
    by code_simp
  have s: "py_strip (hd (py_split ''TEL:'' ''123 Main St TEL:555'')) = ''123 Main St''"
    by code_simp
  have "fst (get_address (init address_one_line)) =
      Inr (py_strip (hd (py_split ''TEL:'' ''123 Main St TEL:555'')))"
    using get_address_line_before [of "init address_one_line"] by (simp only: l option.case)
  then have "fst (get_address (init address_one_line)) = Inr ''123 Main St''"
    by (simp only: s)
  with l show ?thesis by (rule conjI)
qed

text \<open>
  C5. \<open>get_subtotal\<close> parses every line of the text that consists of digits only
  (\<open>numbers_of\<close>: the lines \<open>digits_line\<close> accepts, read in base ten) and returns the
  largest of these values; it raises ValueError when the text has no such line. It leaves
  the parsed list in the attribute \<open>numbers\<close>. When the values are 10, 25 and 7 the
  result is 25.
\<close>

theorem get_subtotal_max:
  "fst (get_subtotal s) =
     (if numbers_of (file s) = [] then Inl ValueError
      else Inr (Max (set (numbers_of (file s))))) \<and>
   numbers (snd (get_subtotal s)) = Some (numbers_of (file s)) \<and>
   (set (numbers_of (file s)) = {10, 25, 7} \<longrightarrow> fst (get_subtotal s) = Inr 25)"
proof -
  have "numbers_of (file s) \<noteq> [] \<and> Max (set (numbers_of (file s))) = 25"
    if "set (numbers_of (file s)) = {10, 25, 7}"
    using that by (cases "numbers_of (file s)") auto
  then show ?thesis by (auto simp: get_subtotal_lines)
qed

theorem get_subtotal_max_witness:
  "set (numbers_of (file (init subtotal_example))) = {10, 25, 7} \<and>
   fst (get_subtotal (init subtotal_example)) = Inr 25"
proof -
  have n: "numbers_of (file (init subtotal_example)) = [10, 25, 7]"
    by code_simp
  then have "set (numbers_of (file (init subtotal_example))) = {10, 25, 7}"
    by simp
  then show ?thesis
    using get_subtotal_max [of "init subtotal_example"] by blast
qed

lemma example_numbers:
  "numbers_of total_example = [100, 15, 85]" "discounts_of total_example = [- 15]"
  "numbers_of total_example_absent = [100, 15]" "discounts_of total_example_absent = [- 15]"
  by code_simp+

text \<open>
  C2. \<open>get_total\<close> adds up the negated amounts of the lines made of digits and a final
  \<open>-\<close> (\<open>discounts_of\<close>), a sum that is never positive, and adds it to the subtotal, the
  largest digit-only line. It returns this candidate exactly when the candidate is one of
  the digit-only lines of the text, and the subtotal otherwise. With the lines 100, 15, 85
  and \<open>15-\<close> it returns 85; without the line 85 it returns 100.
\<close>

theorem get_total_candidate:
  "fst (get_total s) =
     (if numbers_of (file s) = [] then Inl ValueError
      else if Max (set (numbers_of (file s))) + sum_list (discounts_of (file s))
                \<in> set (numbers_of (file s))
           then Inr (Max (set (numbers_of (file s))) + sum_list (discounts_of (file s)))
           else Inr (Max (set (numbers_of (file s))))) \<and>
   sum_list (discounts_of (file s)) \<le> 0 \<and>
   (numbers_of (file s) \<noteq> [] \<longrightarrow>
      (fst (get_total s) = Inr (Max (set (numbers_of (file s))) + sum_list (discounts_of (file s)))
       \<longleftrightarrow> Max (set (numbers_of (file s))) + sum_list (discounts_of (file s))
             \<in> set (numbers_of (file s)))) \<and>
   fst (get_total (init total_example)) = Inr 85 \<and>
   fst (get_total (init total_example_absent)) = Inr 100"
proof -
  let ?ns = "numbers_of (file s)"
  let ?d = "sum_list (discounts_of (file s))"
  have res: "fst (get_total s) =
     (if ?ns = [] then Inl ValueError
      else if Max (set ?ns) + ?d \<in> set ?ns then Inr (Max (set ?ns) + ?d)
           else Inr (Max (set ?ns)))"
    by (simp add: get_total_lines)
  have d: "?d \<le> 0" by (rule discounts_nonpos)
  have iff: "(fst (get_total s) = Inr (Max (set ?ns) + ?d)) = (Max (set ?ns) + ?d \<in> set ?ns)"
    if ne: "?ns \<noteq> []"
  proof -
    have "Max (set ?ns) \<in> set ?ns" using ne by (intro Max_in) auto
    then show ?thesis using ne by (auto simp: res)
  qed
  have e1: "fst (get_total (init total_example)) = Inr 85"
    by (simp add: get_total_lines init_def example_numbers)
  have e2: "fst (get_total (init total_example_absent)) = Inr 100"
    by (simp add: get_total_lines init_def example_numbers)
  show ?thesis using res d iff e1 e2 by blast
qed

theorem get_total_candidate_witness:
  "numbers_of (file (init total_example)) \<noteq> [] \<and>
   Max (set (numbers_of (file (init total_example)))) + sum_list (discounts_of (file (init total_example)))
     \<in> set (numbers_of (file (init total_example))) \<and>
   fst (get_total (init total_example)) = Inr 85"
proof -
  have f: "file (init total_example) = total_example" by (simp add: init_def)
  have a: "numbers_of (file (init total_example)) \<noteq> []"
    by (simp add: f example_numbers)
  have b: "Max (set (numbers_of (file (init total_example)))) +
      sum_list (discounts_of (file (init total_example))) = 85"
    by (simp add: f example_numbers)
  have c: "(85::int) \<in> set (numbers_of (file (init total_example)))"
    by (simp add: f example_numbers)
  from get_total_candidate [of "init total_example"] a
  have "fst (get_total (init total_example)) =
      Inr (Max (set (numbers_of (file (init total_example)))) +
        sum_list (discounts_of (file (init total_example)))) \<longleftrightarrow>
      Max (set (numbers_of (file (init total_example)))) +
        sum_list (discounts_of (file (init total_example)))
      \<in> set (numbers_of (file (init total_example)))"
    by blast
  then show ?thesis using a c unfolding b by blast
qed

text \<open>
  C9. Whenever \<open>get_total\<close> and \<open>get_subtotal\<close> both return on the same text, the total
  is at most the subtotal.
\<close>

theorem get_total_le_subtotal:
  "file s' = file s \<Longrightarrow> fst (get_total s) = Inr t \<Longrightarrow> fst (get_subtotal s') = Inr sub \<Longrightarrow>
   t \<le> sub"
  using discounts_nonpos [of "file s"]
  by (auto simp: get_total_lines get_subtotal_lines split: if_splits)

theorem get_total_le_subtotal_witness:
  "file (init total_example) = file (init total_example) \<and>
   fst (get_total (init total_example)) = Inr 85 \<and>
   fst (get_subtotal (init total_example)) = Inr 100 \<and> (85::int) \<le> 100"
proof -
  have t: "fst (get_total (init total_example)) = Inr 85"
    by (simp add: get_total_lines init_def example_numbers)
  have s: "fst (get_subtotal (init total_example)) = Inr 100"
    by (simp add: get_subtotal_lines init_def example_numbers)
  have "(85::int) \<le> 100"
    using get_total_le_subtotal [OF refl t s] .
  with t s show ?thesis by simp
qed

text \<open>
  C7. \<open>get_total\<close> does not depend on an earlier call of \<open>get_subtotal\<close>: its result is
  the same after such a call, and the same whatever the attribute \<open>numbers\<close> held before.
  The list it tests the candidate against is the one \<open>get_subtotal\<close> derives from the
  same text.
\<close>

theorem get_total_call_order:
  "fst (get_total (snd (get_subtotal s))) = fst (get_total s) \<and>
   fst (get_total (s\<lparr>numbers := old\<rparr>)) = fst (get_total s) \<and>
   numbers (snd (get_total s)) = numbers (snd (get_subtotal s)) \<and>
   (fst (get_subtotal s) = Inr sub \<and> numbers (snd (get_subtotal s)) = Some ns \<longrightarrow>
      fst (get_total s) =
        Inr (if sub + sum_list (discounts_of (file s)) \<in> set ns
             then sub + sum_list (discounts_of (file s)) else sub))"
  by (auto simp: get_total_lines get_subtotal_lines split: if_splits)

theorem get_total_call_order_witness:
  "fst (get_subtotal (init total_example)) = Inr 100 \<and>
   numbers (snd (get_subtotal (init total_example))) = Some [100, 15, 85] \<and>
   fst (get_total (init total_example)) = Inr 85 \<and>
   fst (get_total (snd (get_subtotal (init total_example)))) = Inr 85"
proof -
  have s: "fst (get_subtotal (init total_example)) = Inr 100"
    by (simp add: get_subtotal_lines init_def example_numbers)
  have n: "numbers (snd (get_subtotal (init total_example))) = Some [100, 15, 85]"
    by (simp add: get_subtotal_lines init_def example_numbers)
  have d: "sum_list (discounts_of (file (init total_example))) = - 15"
    by (simp add: init_def example_numbers)
  from get_total_call_order [of "init total_example" "Some []" 100 "[100, 15, 85]"] s n
  have "fst (get_total (snd (get_subtotal (init total_example)))) = fst (get_total (init total_example))"
    and "fst (get_total (init total_example)) =
        Inr (if 100 + sum_list (discounts_of (file (init total_example))) \<in> set [100, 15, 85]
             then 100 + sum_list (discounts_of (file (init total_example))) else 100)"
    by blast+
  then show ?thesis using s n by (simp add: d)
qed

lemma li_snd: "leaves_instance f \<Longrightarrow> snd (f s) = s"
  by (simp add: leaves_instance_def)

text \<open>
  C10. No method changes the attribute \<open>file\<close>. The searches, the field extractors and the
  item methods return the instance as they got it; \<open>get_subtotal\<close>, and through it
  \<open>get_total\<close> and \<open>get_receipt_dictionary\<close>, write the attribute \<open>numbers\<close> only.
\<close>

theorem file_unchanged:
  "snd (search_pattern pattern s) = s \<and>
   snd (get_all_matches pattern s) = s \<and>
   snd (get_date s) = s \<and>
   snd (get_address s) = s \<and>
   snd (get_invoice_number s) = s \<and>
   snd (get_raw_sku_and_descriptions s) = s \<and>
   snd (get_raw_prices s) = s \<and>
   snd (get_items_group s) = s \<and>
   snd (get_subtotal s) = s\<lparr>numbers := Some (numbers_of (file s))\<rparr> \<and>
   snd (get_total s) = s\<lparr>numbers := Some (numbers_of (file s))\<rparr> \<and>
   file (snd (get_subtotal s)) = file s \<and>
   file (snd (get_total s)) = file s \<and>
   file (snd (get_receipt_dictionary s)) = file s"
proof -
  have "snd (search_pattern pattern s) = s" "snd (get_all_matches pattern s) = s"
    by (rule li_snd, rule li_basic)+
  moreover have "snd (get_date s) = s" "snd (get_invoice_number s) = s"
    unfolding get_date_def get_invoice_number_def by (rule li_snd, rule li_basic)+
  moreover have "snd (get_address s) = s"
    by (rule li_snd) (rule li_get_address)
  moreover have "snd (get_raw_sku_and_descriptions s) = s" "snd (get_raw_prices s) = s"
      "snd (get_items_group s) = s"
    by (rule li_snd, rule li_get_raw_sku li_get_raw_prices li_get_items_group)+
  moreover have "snd (get_subtotal s) = s\<lparr>numbers := Some (numbers_of (file s))\<rparr>"
      "snd (get_total s) = s\<lparr>numbers := Some (numbers_of (file s))\<rparr>"
    by (simp_all add: get_subtotal_lines get_total_lines)
  moreover have "file (snd (get_subtotal s)) = file s" "file (snd (get_total s)) = file s"
      "file (snd (get_receipt_dictionary s)) = file s"
    by (rule rfo_file, rule rfo_get_subtotal rfo_get_total rfo_get_receipt_dictionary)+
  ultimately show ?thesis by simp
qed

theorem file_unchanged_witness:
  "file (snd (get_receipt_dictionary (init receipt_example))) = receipt_example \<and>
   snd (get_subtotal (init receipt_example)) =
     \<lparr>file = receipt_example, numbers = Some [100, 85, 15]\<rparr>"
proof -
  have n: "numbers_of receipt_example = [100, 85, 15]" by code_simp
  show ?thesis
    using file_unchanged [of date_pattern "init receipt_example"] by (simp add: init_def n)
qed

text \<open>
  C8. Calling \<open>get_receipt_dictionary\<close> a second time on the same instance gives the same
  result as the first call, field for field, and two instances with the same text give
  the same result.
\<close>

theorem get_receipt_dictionary_idempotent:
  "fst (get_receipt_dictionary (snd (get_receipt_dictionary s))) = fst (get_receipt_dictionary s) \<and>
   (file s' = file s \<longrightarrow> fst (get_receipt_dictionary s') = fst (get_receipt_dictionary s))"
proof -
  have "file (snd (get_receipt_dictionary s)) = file s"
    by (rule rfo_file) (rule rfo_get_receipt_dictionary)
  then have "fst (get_receipt_dictionary (snd (get_receipt_dictionary s))) =
      fst (get_receipt_dictionary s)"
    by (rule rfo_fst [OF rfo_get_receipt_dictionary])
  moreover have "fst (get_receipt_dictionary s') = fst (get_receipt_dictionary s)"
    if "file s' = file s"
    using rfo_get_receipt_dictionary that by (rule rfo_fst)
  ultimately show ?thesis by blast
qed

theorem get_receipt_dictionary_idempotent_witness:
  "file (init receipt_example\<lparr>numbers := Some [1]\<rparr>) = file (init receipt_example) \<and>
   fst (get_receipt_dictionary (init receipt_example\<lparr>numbers := Some [1]\<rparr>)) =
     Inr \<lparr>date = ''01/02/2020'', storeAddress = ''CALLE 1'', invoiceNumber = ''00045'',
          subtotal = 100, total_due = 85,
          lineItems = [\<lparr>sku = 1234567890123, description = ''WIDGET'', total = 100,
                        taxCode = []\<rparr>]\<rparr> \<and>
   fst (get_receipt_dictionary (snd (get_receipt_dictionary (init receipt_example)))) =
     Inr \<lparr>date = ''01/02/2020'', storeAddress = ''CALLE 1'', invoiceNumber = ''00045'',
          subtotal = 100, total_due = 85,
          lineItems = [\<lparr>sku = 1234567890123, description = ''WIDGET'', total = 100,
                        taxCode = []\<rparr>]\<rparr>"
proof -
  have r: "fst (get_receipt_dictionary (init receipt_example)) =
     Inr \<lparr>date = ''01/02/2020'', storeAddress = ''CALLE 1'', invoiceNumber = ''00045'',
          subtotal = 100, total_due = 85,
          lineItems = [\<lparr>sku = 1234567890123, description = ''WIDGET'', total = 100,
                        taxCode = []\<rparr>]\<rparr>"
    by code_simp
  have f: "file (init receipt_example\<lparr>numbers := Some [1]\<rparr>) = file (init receipt_example)"
    by simp
  from get_receipt_dictionary_idempotent
    [of "init receipt_example" "init receipt_example\<lparr>numbers := Some [1]\<rparr>"] f
  have "fst (get_receipt_dictionary (snd (get_receipt_dictionary (init receipt_example)))) =
      fst (get_receipt_dictionary (init receipt_example))"
    and "fst (get_receipt_dictionary (init receipt_example\<lparr>numbers := Some [1]\<rparr>)) =
      fst (get_receipt_dictionary (init receipt_example))"
    by blast+
  then show ?thesis using f unfolding r by blast
qed

lemma dictionary_not_found:
  assumes "re_search date_pattern (file s) = None \<or> re_search address_pattern (file s) = None
    \<or> re_search invoice_pattern (file s) = None"
  shows "fst (get_receipt_dictionary s) = Inl AttributeError"
proof -
  have d: "get_date s = (case re_search date_pattern (file s) of None \<Rightarrow> Inl AttributeError
      | Some t \<Rightarrow> Inr t, s)"
    by (simp add: get_date_def search_pattern_eq)
  have i: "get_invoice_number s = (case re_search invoice_pattern (file s) of
      None \<Rightarrow> Inl AttributeError | Some t \<Rightarrow> Inr t, s)"
    by (simp add: get_invoice_number_def search_pattern_eq)
  show ?thesis
    using assms
    unfolding get_receipt_dictionary_def
    by (auto simp: and_then_def d i get_address_eq split: option.splits)
qed

text \<open>
  C4. When a pattern has no match in the text, \<open>search_pattern\<close> raises (AttributeError,
  from \<open>None.group()\<close>) and returns no string. The exception leaves \<open>get_date\<close>,
  \<open>get_address\<close> and \<open>get_invoice_number\<close>, and \<open>get_receipt_dictionary\<close> raises it
  when any of the three patterns has no match.
\<close>

theorem search_pattern_not_found:
  "(re_search pattern (file s) = None \<longrightarrow> search_pattern pattern s = (Inl AttributeError, s)) \<and>
   (re_search date_pattern (file s) = None \<longrightarrow> fst (get_date s) = Inl AttributeError) \<and>
   (re_search address_pattern (file s) = None \<longrightarrow> fst (get_address s) = Inl AttributeError) \<and>
   (re_search invoice_pattern (file s) = None \<longrightarrow>
      fst (get_invoice_number s) = Inl AttributeError) \<and>
   (re_search date_pattern (file s) = None \<or> re_search address_pattern (file s) = None
      \<or> re_search invoice_pattern (file s) = None \<longrightarrow>
      fst (get_receipt_dictionary s) = Inl AttributeError)"
  using dictionary_not_found [of s]
  by (simp add: search_pattern_eq get_date_def get_invoice_number_def get_address_eq)

theorem search_pattern_not_found_witness:
  "re_search date_pattern (file (init ''abc'')) = None \<and>
   re_search address_pattern (file (init ''abc'')) = None \<and>
   re_search invoice_pattern (file (init ''abc'')) = None \<and>
   search_pattern date_pattern (init ''abc'') = (Inl AttributeError, init ''abc'') \<and>
   fst (get_date (init ''abc'')) = Inl AttributeError \<and>
   fst (get_address (init ''abc'')) = Inl AttributeError \<and>
   fst (get_invoice_number (init ''abc'')) = Inl AttributeError \<and>
   fst (get_receipt_dictionary (init ''abc'')) = Inl AttributeError"
proof -
  have n: "re_search date_pattern (file (init ''abc'')) = None"
      "re_search address_pattern (file (init ''abc'')) = None"
      "re_search invoice_pattern (file (init ''abc'')) = None"
    by code_simp+
  show ?thesis
    using search_pattern_not_found [of date_pattern "init ''abc''"] n by blast
qed

text \<open>
  C3. \<open>get_items_group\<close> pairs the descriptions and the prices by position, up to the
  length of the shorter list (\<open>paired\<close>: the two fields of price \<open>i\<close> are appended to
  description \<open>i\<close>, the descriptions beyond the prices stay as they are), keeps the records
  of exactly four fields whose description is not \<open>SUBTOTAL\<close> (\<open>kept\<close>), and converts
  the first and the third field of each to integers (\<open>make_item\<close>, which raises ValueError
  on a field that is not a number). IndexError is raised only for a price with fewer than
  two fields, which \<open>get_raw_prices\<close> never produces. On the example of two descriptions
  and two prices the result is the one item for WIDGET.
\<close>

theorem items_group_zip:
  "items_group descs prices =
     (if list_all (\<lambda>p. 2 \<le> length p) (take (length descs) prices)
      then for_each make_item (filter kept (paired descs prices))
      else Inl IndexError) \<and>
   (fst (get_raw_sku_and_descriptions s) = Inr descs \<and> fst (get_raw_prices s) = Inr prices \<longrightarrow>
      fst (get_items_group s) = items_group descs prices) \<and>
   items_group [[''1234567890123'', ''WIDGET''], ['''', ''SUBTOTAL'']]
       [[''500'', ''A''], [''1000'', '''']] =
     Inr [\<lparr>sku = 1234567890123, description = ''WIDGET'', total = 500, taxCode = ''A''\<rparr>]"
proof -
  have a: "items_group descs prices =
     (if list_all (\<lambda>p. 2 \<le> length p) (take (length descs) prices)
      then for_each make_item (filter kept (paired descs prices))
      else Inl IndexError)"
    by (rule items_group_paired)
  have b: "fst (get_items_group s) = items_group descs prices"
    if "fst (get_raw_sku_and_descriptions s) = Inr descs" "fst (get_raw_prices s) = Inr prices"
  proof -
    obtain ps where ps: "get_raw_prices s = (Inr ps, s)"
      using get_raw_prices_ok [of s] by blast
    with that show ?thesis
      by (simp add: get_items_group_def and_then_def get_raw_sku_eq lift_def)
  qed
  have c: "items_group [[''1234567890123'', ''WIDGET''], ['''', ''SUBTOTAL'']]
       [[''500'', ''A''], [''1000'', '''']] =
     Inr [\<lparr>sku = 1234567890123, description = ''WIDGET'', total = 500, taxCode = ''A''\<rparr>]"
    by code_simp
  show ?thesis using a b c by blast
qed

theorem items_group_zip_witness:
  "list_all (\<lambda>p. 2 \<le> length p) (take (length [[''1234567890123'', ''WIDGET''], ['''', ''SUBTOTAL'']])
      [[''500'', ''A''], [''1000'', '''']]) \<and>
   filter kept (paired [[''1234567890123'', ''WIDGET''], ['''', ''SUBTOTAL'']]
      [[''500'', ''A''], [''1000'', '''']]) = [[''1234567890123'', ''WIDGET'', ''500'', ''A'']] \<and>
   for_each make_item [[''1234567890123'', ''WIDGET'', ''500'', ''A'']] =
     Inr [\<lparr>sku = 1234567890123, description = ''WIDGET'', total = 500, taxCode = ''A''\<rparr>]"
proof -
  let ?d = "[[''1234567890123'', ''WIDGET''], ['''', ''SUBTOTAL'']]"
  let ?p = "[[''500'', ''A''], [''1000'', '''']]"
  have l: "list_all (\<lambda>p. 2 \<le> length p) (take (length ?d) ?p)" by simp
  have k: "filter kept (paired ?d ?p) = [[''1234567890123'', ''WIDGET'', ''500'', ''A'']]"
    by code_simp
  note t = items_group_zip [of ?d ?p "init []"]
  have 1: "items_group ?d ?p = for_each make_item (filter kept (paired ?d ?p))"
    using conjunct1 [OF t] l by (simp only: if_True)
  have 2: "items_group ?d ?p =
      Inr [\<lparr>sku = 1234567890123, description = ''WIDGET'', total = 500, taxCode = ''A''\<rparr>]"
    using conjunct2 [OF conjunct2 [OF t]] .
  have "for_each make_item [[''1234567890123'', ''WIDGET'', ''500'', ''A'']] =
      Inr [\<lparr>sku = 1234567890123, description = ''WIDGET'', total = 500, taxCode = ''A''\<rparr>]"
    using 1 2 unfolding k by (rule trans [OF sym])
  with l k show ?thesis by (intro conjI)
qed

text \<open>
  C6. When \<open>get_raw_sku_and_descriptions\<close> or \<open>get_raw_prices\<close> returns the empty list,
  \<open>get_items_group\<close> returns the empty list and raises nothing.
\<close>

theorem get_items_group_empty_lists:
  "fst (get_raw_sku_and_descriptions s) = Inr [] \<or> fst (get_raw_prices s) = Inr [] \<Longrightarrow>
   fst (get_items_group s) = Inr []"
  by (simp add: get_items_group_empty)

theorem get_items_group_empty_lists_witness:
  "fst (get_raw_sku_and_descriptions (init widget_example)) = Inr [[''1234567890123'', ''WIDGET'']] \<and>
   fst (get_raw_prices (init widget_example)) = Inr [] \<and>
   fst (get_items_group (init widget_example)) = Inr []"
proof -
  have d: "fst (get_raw_sku_and_descriptions (init widget_example)) =
      Inr [[''1234567890123'', ''WIDGET'']]"
    by code_simp
  have p: "fst (get_raw_prices (init widget_example)) = Inr []"
    by code_simp
  from p have "fst (get_items_group (init widget_example)) = Inr []"
    by (intro get_items_group_empty_lists disjI2)
  with d p show ?thesis by simp
qed

end
